theory Spec2Isabelle
  imports Main "HOL-Library.Word" "HOL-Library.Multiset"
begin

section \<open>Data model\<close>

text \<open>The program stores literals, variable indices and costs in C++ \<open>unsigned int\<close>;
  they are 32-bit words here, so every addition, subtraction and shift wraps as it does
  in the program.\<close>

type_synonym uint = "32 word"

text \<open>Every \<open>throw\<close> of the program is a value of this type. The constructors name the
  throw sites: the \<open>std::runtime_error\<close>s by their message, \<open>RangeOverflow\<close> for the
  \<open>std::overflow_error\<close> of \<open>vectorIndexFromAndLiteral\<close>, \<open>OutOfRange\<close> for the
  \<open>std::out_of_range\<close> of \<open>vector::at\<close> and \<open>map::at\<close>.\<close>

datatype error =
    NotAndLiteral
  | AndVectorIndexOutOfRange
  | BestCutUndefined
  | ChildCutSetUndefined
  | NeitherInputNorAnd
  | EmptyCutUnion
  | CostsUndefined
  | CostIsSentinel
  | RangeOverflow
  | OutOfRange
  | CutSetRemainsUndefined
  | InvalidK
  | InputMalformed

definition bindE :: "error + 'a \<Rightarrow> ('a \<Rightarrow> error + 'b) \<Rightarrow> error + 'b" where
  "bindE m f = (case m of Inl err \<Rightarrow> Inl err | Inr x \<Rightarrow> f x)"

text \<open>A range-based \<open>for\<close> whose body may throw: the first error ends the loop.\<close>

fun foldE :: "('a \<Rightarrow> 's \<Rightarrow> error + 's) \<Rightarrow> 'a list \<Rightarrow> 's \<Rightarrow> error + 's" where
  "foldE f [] s = Inr s"
| "foldE f (x # xs) s = (case f x s of Inl err \<Rightarrow> Inl err | Inr s' \<Rightarrow> foldE f xs s')"

subsection \<open>AigNode, AndNode, LatchNode, AndInverterGraph\<close>

record AndNode =
  fanout :: uint
  firstChild :: uint
  secondChild :: uint

record LatchNode =
  latchFanout :: uint
  nextQ :: uint

record AndInverterGraph =
  maxVariableIndex :: uint
  numInputs :: uint
  numLatches :: uint
  numOutputs :: uint
  numAnds :: uint
  outputLiteralVector :: "uint list"
  andVector :: "AndNode list"
  latchVector :: "LatchNode list"

definition indexFromLiteral :: "uint \<Rightarrow> uint" where
  "indexFromLiteral literal = drop_bit 1 literal"

definition literalFromIndex :: "uint \<Rightarrow> uint" where
  "literalFromIndex index = push_bit 1 index"

definition nodeIsInput :: "AndInverterGraph \<Rightarrow> uint \<Rightarrow> bool" where
  "nodeIsInput g nodeLiteral =
     (if nodeLiteral \<le> 1 then False
      else indexFromLiteral nodeLiteral \<le> numInputs g)"


definition nodeIsAnd :: "AndInverterGraph \<Rightarrow> uint \<Rightarrow> bool" where
  "nodeIsAnd g nodeLiteral =
     (if nodeLiteral \<le> 1 then False
      else indexFromLiteral nodeLiteral \<le> numInputs g + numLatches g + numAnds g
           \<and> indexFromLiteral nodeLiteral > numInputs g + numLatches g)"

definition getAndNodeFromLiteral :: "AndInverterGraph \<Rightarrow> uint \<Rightarrow> error + AndNode" where
  "getAndNodeFromLiteral g andLiteral =
     (if \<not> nodeIsAnd g andLiteral then Inl NotAndLiteral
      else let andVectorIndex = indexFromLiteral andLiteral - numInputs g - numLatches g - 1
           in if unat andVectorIndex \<ge> length (andVector g) then Inl AndVectorIndexOutOfRange
              else Inr (andVector g ! unat andVectorIndex))"

definition getFirstAndLiteral :: "AndInverterGraph \<Rightarrow> uint" where
  "getFirstAndLiteral g = literalFromIndex (0 + numInputs g + numLatches g + 1)"

subsection \<open>Cut\<close>

record Cut =
  nodeVariables :: "uint set"
  areaCost :: uint
  delayCost :: uint
  powerCost :: uint

text \<open>The reserved value \<open>(unsigned int) -1\<close> marks a cost as unset.\<close>

definition unsetCost :: uint where
  "unsetCost = - 1"

definition numNodeVariables :: "Cut \<Rightarrow> uint" where
  "numNodeVariables ct = of_nat (card (nodeVariables ct))"

definition setAreaCost :: "Cut \<Rightarrow> uint \<Rightarrow> error + Cut" where
  "setAreaCost ct a = (if a = unsetCost then Inl CostIsSentinel else Inr (ct\<lparr>areaCost := a\<rparr>))"

definition setDelayCost :: "Cut \<Rightarrow> uint \<Rightarrow> error + Cut" where
  "setDelayCost ct d = (if d = unsetCost then Inl CostIsSentinel else Inr (ct\<lparr>delayCost := d\<rparr>))"

definition setPowerCost :: "Cut \<Rightarrow> uint \<Rightarrow> error + Cut" where
  "setPowerCost ct p = (if p = unsetCost then Inl CostIsSentinel else Inr (ct\<lparr>powerCost := p\<rparr>))"

definition allCostsSet :: "Cut \<Rightarrow> bool" where
  "allCostsSet ct =
     (if areaCost ct = unsetCost \<or> delayCost ct = unsetCost \<or> powerCost ct = unsetCost
      then False else True)"

text \<open>\<open>Cut::operator+\<close>: the union of two cuts, refused when an operand has no leaf.\<close>

definition cutUnion :: "Cut \<Rightarrow> Cut \<Rightarrow> error + Cut" where
  "cutUnion lhsCut rhsCut =
     (if nodeVariables lhsCut = {} \<or> nodeVariables rhsCut = {} then Inl EmptyCutUnion
      else Inr \<lparr>nodeVariables = nodeVariables lhsCut \<union> nodeVariables rhsCut,
                areaCost = unsetCost, delayCost = unsetCost, powerCost = unsetCost\<rparr>)"

text \<open>\<open>Cut::operator==\<close>.\<close>

definition cutEq :: "Cut \<Rightarrow> Cut \<Rightarrow> bool" where
  "cutEq lhsCut rhsCut = (if nodeVariables lhsCut = nodeVariables rhsCut then True else False)"

subsection \<open>CutSet\<close>

type_synonym CutSet = "Cut list"

fun findCut :: "Cut \<Rightarrow> CutSet \<Rightarrow> nat option" where
  "findCut newCut [] = None"
| "findCut newCut (x # xs) =
     (if cutEq newCut x then Some 0
      else (case findCut newCut xs of None \<Rightarrow> None | Some i \<Rightarrow> Some (Suc i)))"

text \<open>\<open>CutSet::emplace\<close> returns the set after the call, the position the returned
  iterator points to, and whether the cut was inserted.\<close>

definition emplace :: "CutSet \<Rightarrow> Cut \<Rightarrow> CutSet \<times> nat \<times> bool" where
  "emplace cutSet newCut =
     (case findCut newCut cutSet of
        Some i \<Rightarrow> (cutSet, i, False)
      | None \<Rightarrow> (cutSet @ [newCut], length cutSet, True))"


subsection \<open>CutEngine\<close>

datatype MappingGoal = MinimizeArea | MinimizeDelay

text \<open>The members of a \<open>CutEngine\<close> object: the graph it refers to, its immutable
  configuration, the cut set of every and-node and the implementation map. The map is
  a \<open>std::map\<close> from literals to flags, a partial function here. The fields
  \<open>aigOf\<close>, \<open>lutInputs\<close> and \<open>pruneBound\<close> are the members \<open>_aig\<close>, \<open>_k\<close> and \<open>_c\<close>.\<close>

record CutEngine =
  aigOf :: AndInverterGraph
  lutInputs :: uint
  pruneBound :: uint
  mappingGoal :: MappingGoal
  cutSetVector :: "CutSet list"
  implementationMap :: "uint \<rightharpoonup> bool"

text \<open>The constructor: \<open>k < 2\<close> is refused; every and-node gets an empty cut set, and
  the even literal of every and-variable an entry \<open>false\<close> (\<open>std::map::emplace\<close> leaves
  an entry that is already there).\<close>

definition initImplementationMap :: "AndInverterGraph \<Rightarrow> (uint \<rightharpoonup> bool)" where
  "initImplementationMap g =
     (let firstAndVariable = indexFromLiteral (getFirstAndLiteral g);
          lastAndVariable = firstAndVariable + numAnds g
      in fold (\<lambda>i m. if literalFromIndex (of_nat i) \<in> dom m then m
                       else m(literalFromIndex (of_nat i) \<mapsto> False))
              [unat firstAndVariable ..< unat lastAndVariable] Map.empty)"

definition newCutEngine ::
  "AndInverterGraph \<Rightarrow> MappingGoal \<Rightarrow> uint \<Rightarrow> uint \<Rightarrow> error + CutEngine" where
  "newCutEngine g goal k c =
     (if k < 2 then Inl InvalidK
      else Inr \<lparr>aigOf = g, lutInputs = k, pruneBound = c, mappingGoal = goal,
                cutSetVector = replicate (unat (numAnds g)) [],
                implementationMap = initImplementationMap g\<rparr>)"

definition cutAreaComparision :: "Cut \<Rightarrow> Cut \<Rightarrow> bool" where
  "cutAreaComparision cutA cutB =
     (if areaCost cutA < areaCost cutB then True
      else if areaCost cutA = areaCost cutB then
        (if delayCost cutA < delayCost cutB then True else False)
      else False)"

definition cutDelayComparision :: "Cut \<Rightarrow> Cut \<Rightarrow> bool" where
  "cutDelayComparision cutA cutB =
     (if delayCost cutA < delayCost cutB then True
      else if delayCost cutA = delayCost cutB then
        (if areaCost cutA < areaCost cutB then True else False)
      else False)"

text \<open>\<open>std::sort\<close> with a comparator is code of the C++ library, not of the program.
  The library promises that it leaves the range a permutation of itself in which no
  element is ordered before an earlier one, and nothing about the order of elements
  that compare equivalent: the introsort of libstdc++ reorders them on ranges of more
  than 16 elements. The sort is therefore a parameter \<open>srt\<close> of every function that
  reaches it, and \<open>stdSortContract\<close> is what the library promises for the two
  comparators that the program passes.\<close>

type_synonym sorter = "(Cut \<Rightarrow> Cut \<Rightarrow> bool) \<Rightarrow> Cut list \<Rightarrow> Cut list"

definition sortsBy :: "sorter \<Rightarrow> (Cut \<Rightarrow> Cut \<Rightarrow> bool) \<Rightarrow> bool" where
  "sortsBy srt lt \<longleftrightarrow>
     (\<forall>xs. mset (srt lt xs) = mset xs \<and> sorted_wrt (\<lambda>a b. \<not> lt b a) (srt lt xs))"

definition stdSortContract :: "sorter \<Rightarrow> bool" where
  "stdSortContract srt \<longleftrightarrow> sortsBy srt cutAreaComparision \<and> sortsBy srt cutDelayComparision"

text \<open>One sort that meets the contract, used to run the model on concrete designs: a
  stable insertion sort (libstdc++ sorts ranges of at most 16 elements by insertion).\<close>

fun sortInsert :: "('a \<Rightarrow> 'a \<Rightarrow> bool) \<Rightarrow> 'a \<Rightarrow> 'a list \<Rightarrow> 'a list" where
  "sortInsert lt x [] = [x]"
| "sortInsert lt x (y # ys) = (if lt y x then y # sortInsert lt x ys else x # y # ys)"

definition insertionSort :: "('a \<Rightarrow> 'a \<Rightarrow> bool) \<Rightarrow> 'a list \<Rightarrow> 'a list" where
  "insertionSort lt xs = foldr (sortInsert lt) xs []"

definition sortCutSet :: "sorter \<Rightarrow> CutSet \<Rightarrow> MappingGoal \<Rightarrow> CutSet" where
  "sortCutSet srt cutSet goal =
     (case goal of
        MinimizeArea \<Rightarrow> srt cutAreaComparision cutSet
      | MinimizeDelay \<Rightarrow> srt cutDelayComparision cutSet)"

definition sortAndChooseBestCuts :: "sorter \<Rightarrow> CutSet \<Rightarrow> uint \<Rightarrow> MappingGoal \<Rightarrow> CutSet" where
  "sortAndChooseBestCuts srt cutSet c goal =
     (let bestCuts = (case goal of
                        MinimizeArea \<Rightarrow> srt cutAreaComparision cutSet
                      | MinimizeDelay \<Rightarrow> srt cutDelayComparision cutSet)
      in if length bestCuts > unat c then take (unat c) bestCuts else bestCuts)"

definition vectorIndexFromAndLiteral :: "CutEngine \<Rightarrow> uint \<Rightarrow> error + nat" where
  "vectorIndexFromAndLiteral e andLiteral =
     (let vectorIndex = indexFromLiteral andLiteral - numInputs (aigOf e)
                        - numLatches (aigOf e) - 1
      in if unat vectorIndex \<ge> length (cutSetVector e) then Inl RangeOverflow
         else Inr (unat vectorIndex))"

definition getCutSet :: "CutEngine \<Rightarrow> uint \<Rightarrow> error + CutSet" where
  "getCutSet e andLiteral =
     (if \<not> nodeIsAnd (aigOf e) andLiteral then Inl NotAndLiteral
      else bindE (vectorIndexFromAndLiteral e andLiteral) (\<lambda>i. Inr (cutSetVector e ! i)))"

definition getBestCut :: "CutEngine \<Rightarrow> uint \<Rightarrow> error + Cut" where
  "getBestCut e andLiteral =
     (if \<not> nodeIsAnd (aigOf e) andLiteral then Inl NotAndLiteral
      else bindE (vectorIndexFromAndLiteral e andLiteral) (\<lambda>i.
             if cutSetVector e ! i = [] then Inl BestCutUndefined
             else Inr (cutSetVector e ! i ! 0)))"

text \<open>\<open>estimateUnionCutAreaCost\<close> collects in the \<open>std::set\<close> \<open>unimplementedNodes\<close> the
  literal \<open>2 * v\<close> of every leaf \<open>v\<close> that is an and-node with a \<open>false\<close> entry, and
  returns the size of that set; \<open>std::map::at\<close> throws when an and-leaf has no entry.\<close>

definition unimplementedNodes :: "CutEngine \<Rightarrow> Cut \<Rightarrow> uint set" where
  "unimplementedNodes e unionCut =
     literalFromIndex `
       Set.filter (\<lambda>v. nodeIsAnd (aigOf e) (literalFromIndex v)
                       \<and> implementationMap e (literalFromIndex v) = Some False)
                  (nodeVariables unionCut)"

definition estimateUnionCutAreaCost :: "CutEngine \<Rightarrow> uint \<Rightarrow> Cut \<Rightarrow> error + uint" where
  "estimateUnionCutAreaCost e andLiteral unionCut =
     (if \<exists>v \<in> nodeVariables unionCut.
           nodeIsAnd (aigOf e) (literalFromIndex v)
           \<and> implementationMap e (literalFromIndex v) = None
      then Inl OutOfRange
      else Inr (of_nat (card (unimplementedNodes e unionCut))))"

definition estimateUnionCutDelayCost :: "Cut \<Rightarrow> Cut \<Rightarrow> uint" where
  "estimateUnionCutDelayCost cutA cutB =
     (if delayCost cutA \<ge> delayCost cutB then delayCost cutA else delayCost cutB)"

definition estimateAutoCutAreaCost :: "CutEngine \<Rightarrow> uint \<Rightarrow> error + uint" where
  "estimateAutoCutAreaCost e andLiteral =
     bindE (getBestCut e andLiteral) (\<lambda>bestCut. Inr (areaCost bestCut))"

definition estimateAutoCutDelayCost :: "CutEngine \<Rightarrow> uint \<Rightarrow> error + uint" where
  "estimateAutoCutDelayCost e andLiteral =
     bindE (getBestCut e andLiteral) (\<lambda>bestCut. Inr (1 + delayCost bestCut))"

definition generateAutoCut :: "CutEngine \<Rightarrow> uint \<Rightarrow> error + Cut" where
  "generateAutoCut e nodeLiteral =
     (if nodeIsInput (aigOf e) nodeLiteral then
        Inr \<lparr>nodeVariables = {indexFromLiteral nodeLiteral},
             areaCost = 0, delayCost = 1, powerCost = 0\<rparr>
      else if nodeIsAnd (aigOf e) nodeLiteral then
        bindE (estimateAutoCutAreaCost e nodeLiteral) (\<lambda>autoCutArea.
        bindE (estimateAutoCutDelayCost e nodeLiteral) (\<lambda>autoCutDelay.
          Inr \<lparr>nodeVariables = {indexFromLiteral nodeLiteral},
               areaCost = autoCutArea, delayCost = autoCutDelay, powerCost = 0\<rparr>))
      else Inl NeitherInputNorAnd)"

text \<open>The body of the two nested loops of \<open>diamondOperation\<close>, for one pair of cuts;
  \<open>diamond\<close> is the result set built so far.\<close>

definition diamondBody ::
  "CutEngine \<Rightarrow> uint \<Rightarrow> uint \<Rightarrow> Cut \<Rightarrow> Cut \<Rightarrow> CutSet \<Rightarrow> error + CutSet" where
  "diamondBody e andLiteral k cutA cutB diamond =
     bindE (cutUnion cutA cutB) (\<lambda>unionCut.
       if numNodeVariables unionCut > k then Inr diamond
       else if \<not> allCostsSet cutA \<or> \<not> allCostsSet cutB then Inl CostsUndefined
       else (case emplace diamond unionCut of (diamond', autoCutIterator, wasNotInTheSet) \<Rightarrow>
         if wasNotInTheSet then
           bindE (estimateUnionCutAreaCost e andLiteral unionCut) (\<lambda>unionCutAreaCost.
           bindE (setAreaCost (diamond' ! autoCutIterator) unionCutAreaCost) (\<lambda>c1.
           bindE (setDelayCost c1 (estimateUnionCutDelayCost cutA cutB)) (\<lambda>c2.
           bindE (setPowerCost c2 0) (\<lambda>c3.
             Inr (diamond'[autoCutIterator := c3])))))
         else Inr diamond'))"

definition diamondOperation ::
  "CutEngine \<Rightarrow> uint \<Rightarrow> CutSet \<Rightarrow> CutSet \<Rightarrow> uint \<Rightarrow> error + CutSet" where
  "diamondOperation e andLiteral cutSetA cutSetB k =
     foldE (\<lambda>cutA. foldE (diamondBody e andLiteral k cutA) cutSetB) cutSetA []"

definition childCutSet :: "CutEngine \<Rightarrow> uint \<Rightarrow> error + CutSet" where
  "childCutSet e childLiteral =
     (if nodeIsInput (aigOf e) childLiteral then Inr [] else getCutSet e childLiteral)"

definition childNotReady :: "CutEngine \<Rightarrow> uint \<Rightarrow> error + bool" where
  "childNotReady e childLiteral =
     (if nodeIsAnd (aigOf e) childLiteral
      then bindE (getCutSet e childLiteral) (\<lambda>cs. Inr (cs = []))
      else Inr False)"

definition phiOperation :: "CutEngine \<Rightarrow> uint \<Rightarrow> error + CutSet" where
  "phiOperation e andLiteral =
     (if \<not> nodeIsAnd (aigOf e) andLiteral then Inl NotAndLiteral
      else bindE (getCutSet e andLiteral) (\<lambda>own.
        if own \<noteq> [] then Inr own
        else bindE (getAndNodeFromLiteral (aigOf e) andLiteral) (\<lambda>an.
          let firstChildLiteral = firstChild an; secondChildLiteral = secondChild an in
          bindE (childNotReady e firstChildLiteral) (\<lambda>firstNotReady.
          bindE (if firstNotReady then Inr True
                 else childNotReady e secondChildLiteral) (\<lambda>notReady.
            if notReady then Inl ChildCutSetUndefined
            else bindE (childCutSet e firstChildLiteral) (\<lambda>firstChildCutSet.
                 bindE (childCutSet e secondChildLiteral) (\<lambda>secondChildCutSet.
                 bindE (generateAutoCut e firstChildLiteral) (\<lambda>firstChildAutoCut.
                 bindE (generateAutoCut e secondChildLiteral) (\<lambda>secondChildAutoCut.
                   diamondOperation e andLiteral
                     (fst (emplace firstChildCutSet firstChildAutoCut))
                     (fst (emplace secondChildCutSet secondChildAutoCut))
                     (lutInputs e))))))))))"


text \<open>After \<open>findCuts\<close> has stored the cut set of a node whose best cut has area 0: if
  the child is an and-node whose best cut lies inside the node's best cut, the entry of
  the child's even literal is reset.\<close>

definition absorbChild :: "CutEngine \<Rightarrow> Cut \<Rightarrow> uint \<Rightarrow> error + CutEngine" where
  "absorbChild e bestCut childLiteral =
     (if nodeIsAnd (aigOf e) childLiteral then
        bindE (getBestCut e childLiteral) (\<lambda>childBestCut.
          if nodeVariables childBestCut \<subseteq> nodeVariables bestCut then
            Inr (e\<lparr>implementationMap := (implementationMap e)
                   ((if childLiteral mod 2 = 1 then childLiteral - 1 else childLiteral)
                      \<mapsto> False)\<rparr>)
          else Inr e)
      else Inr e)"

text \<open>One iteration of the \<open>while\<close> loop of \<open>findCuts\<close>, for the node on top of the
  stack. The result \<open>Some child\<close> asks to push \<open>child\<close> (the \<open>continue\<close> branches),
  \<open>None\<close> to pop. The branches for \<open>c > 0\<close> and \<open>c = 0\<close> differ in the sorting call
  only.\<close>

definition findCutsBody :: "sorter \<Rightarrow> CutEngine \<Rightarrow> uint \<Rightarrow> error + (uint option \<times> CutEngine)" where
  "findCutsBody srt e currentAndNode =
     bindE (getAndNodeFromLiteral (aigOf e) currentAndNode) (\<lambda>an.
       let firstChildLiteral = firstChild an; secondChildLiteral = secondChild an in
       bindE (childNotReady e firstChildLiteral) (\<lambda>firstNotReady.
         if firstNotReady then Inr (Some firstChildLiteral, e)
         else bindE (childNotReady e secondChildLiteral) (\<lambda>secondNotReady.
           if secondNotReady then Inr (Some secondChildLiteral, e)
           else bindE (phiOperation e currentAndNode) (\<lambda>currentNodeCutSet.
             let stored = (if pruneBound e > 0
                           then sortAndChooseBestCuts srt currentNodeCutSet (pruneBound e)
                                  (mappingGoal e)
                           else sortCutSet srt currentNodeCutSet (mappingGoal e)) in
             bindE (vectorIndexFromAndLiteral e currentAndNode) (\<lambda>i.
               let e1 = e\<lparr>cutSetVector := (cutSetVector e)[i := stored]\<rparr> in
               if stored = [] then Inl OutOfRange
               else if areaCost (stored ! 0) = 0 then
                 bindE (absorbChild
                          (e1\<lparr>implementationMap :=
                                (implementationMap e1)(currentAndNode \<mapsto> True)\<rparr>)
                          (stored ! 0) firstChildLiteral) (\<lambda>e2.
                 bindE (absorbChild e2 (stored ! 0) secondChildLiteral) (\<lambda>e3.
                   Inr (None, e3)))
               else Inr (None, e1))))))"

text \<open>The \<open>while\<close> loop over the processing stack. It need not end on a graph whose
  and-nodes refer to themselves, so the model counts iterations: \<open>None\<close> means that
  \<open>fuel\<close> iterations did not empty the stack.\<close>

fun findCutsLoop :: "sorter \<Rightarrow> nat \<Rightarrow> uint list \<Rightarrow> CutEngine \<Rightarrow> (error + CutEngine) option" where
  "findCutsLoop srt fuel [] e = Some (Inr e)"
| "findCutsLoop srt 0 (t # stack) e = None"
| "findCutsLoop srt (Suc fuel) (t # stack) e =
     (case findCutsBody srt e t of
        Inl err \<Rightarrow> Some (Inl err)
      | Inr (Some child, e') \<Rightarrow> findCutsLoop srt fuel (child # t # stack) e'
      | Inr (None, e') \<Rightarrow> findCutsLoop srt fuel stack e')"

definition findCuts :: "sorter \<Rightarrow> nat \<Rightarrow> CutEngine \<Rightarrow> uint \<Rightarrow> (error + CutEngine) option" where
  "findCuts srt fuel e andLiteral =
     (if \<not> nodeIsAnd (aigOf e) andLiteral then Some (Inl NotAndLiteral)
      else (case getCutSet e andLiteral of
              Inl err \<Rightarrow> Some (Inl err)
            | Inr own \<Rightarrow>
                if own \<noteq> [] then Some (Inr e)
                else (case findCutsLoop srt fuel [andLiteral] e of
                        None \<Rightarrow> None
                      | Some (Inl err) \<Rightarrow> Some (Inl err)
                      | Some (Inr e') \<Rightarrow>
                          (case getCutSet e' andLiteral of
                             Inl err \<Rightarrow> Some (Inl err)
                           | Inr result \<Rightarrow>
                               if result = [] then Some (Inl CutSetRemainsUndefined)
                               else Some (Inr e')))))"

subsection \<open>TechMapper\<close>

text \<open>A \<open>TechMapper\<close> holds a reference to the engine and calls \<open>findCuts\<close> on it, so
  the engine's state is part of the mapper's state. The field \<open>coverMap\<close> is the
  mapper's own member \<open>_implementationMap\<close>, named apart from the engine's.\<close>

record TechMapper =
  mappingAreaCost :: uint
  mappingDelayCost :: uint
  mappingPowerCost :: uint
  coverMap :: "uint \<rightharpoonup> bool"
  cutEngine :: CutEngine

definition newTechMapper :: "CutEngine \<Rightarrow> TechMapper" where
  "newTechMapper e =
     \<lparr>mappingAreaCost = 0, mappingDelayCost = 0, mappingPowerCost = 0,
      coverMap = initImplementationMap (aigOf e), cutEngine = e\<rparr>"

text \<open>\<open>_implementationMap[l] == false\<close>: \<open>operator[]\<close> reads a missing entry as
  \<open>false\<close>; every such read of \<open>run\<close> is followed by the assignment of \<open>true\<close>.\<close>

definition notCovered :: "(uint \<rightharpoonup> bool) \<Rightarrow> uint \<Rightarrow> bool" where
  "notCovered m l = (case m l of None \<Rightarrow> True | Some b \<Rightarrow> b = False)"

definition andLiteralsOf :: "AndInverterGraph \<Rightarrow> Cut \<Rightarrow> uint set" where
  "andLiteralsOf g ct =
     literalFromIndex ` Set.filter (\<lambda>v. nodeIsAnd g (literalFromIndex v)) (nodeVariables ct)"

definition coverNode :: "uint \<Rightarrow> TechMapper \<times> uint set \<Rightarrow> error + TechMapper \<times> uint set" where
  "coverNode nodeLiteral st =
     (case st of (tm, nextIteration) \<Rightarrow>
        if notCovered (coverMap tm) nodeLiteral then
          bindE (getBestCut (cutEngine tm) nodeLiteral) (\<lambda>nodeLiteralBestCut.
            Inr (tm\<lparr>coverMap := (coverMap tm)(nodeLiteral \<mapsto> True),
                     mappingAreaCost := mappingAreaCost tm + 1\<rparr>,
                 nextIteration \<union> andLiteralsOf (aigOf (cutEngine tm)) nodeLiteralBestCut))
        else Inr (tm, nextIteration))"


text \<open>The \<open>while\<close> loop of \<open>run\<close> over the and-nodes still to be checked. Each round
  that does not end the loop marks at least one more node, which is the termination
  argument below.\<close>

definition uncovered :: "TechMapper \<Rightarrow> nat" where
  "uncovered tm = card {l. coverMap tm l \<noteq> Some True}"

lemma uncovered_mark:
  fixes m :: "uint \<rightharpoonup> bool"
  assumes "m n \<noteq> Some True"
  shows "card {l. (m(n \<mapsto> True)) l \<noteq> Some True} < card {l. m l \<noteq> Some True}"
proof -
  have "{l. (m(n \<mapsto> True)) l \<noteq> Some True} = {l. m l \<noteq> Some True} - {n}" by auto
  moreover have "n \<in> {l. m l \<noteq> Some True}" using assms by simp
  ultimately show ?thesis using card_Diff1_less[of "{l. m l \<noteq> Some True}" n] by simp
qed

lemma coverNode_measure:
  assumes "coverNode n (tm, nx) = Inr (tm', nx')"
  shows "uncovered tm' < uncovered tm \<or> (uncovered tm' = uncovered tm \<and> nx' = nx)"
proof (cases "notCovered (coverMap tm) n")
  case True
  then have "coverMap tm n \<noteq> Some True" by (auto simp: notCovered_def split: option.splits)
  from uncovered_mark[of "coverMap tm" n, OF this] show ?thesis using assms True
    by (auto simp: coverNode_def bindE_def uncovered_def split: sum.splits)
next
  case False
  then show ?thesis using assms by (simp add: coverNode_def)
qed

lemma foldE_coverNode_measure:
  "foldE coverNode xs (tm, nx) = Inr (tm', nx') \<Longrightarrow>
   uncovered tm' < uncovered tm \<or> (uncovered tm' = uncovered tm \<and> nx' = nx)"
proof (induction xs arbitrary: tm nx)
  case Nil then show ?case by simp
next
  case (Cons x xs)
  then obtain tm1 nx1 where s1: "coverNode x (tm, nx) = Inr (tm1, nx1)"
    and r: "foldE coverNode xs (tm1, nx1) = Inr (tm', nx')"
    by (auto split: sum.splits)
  from coverNode_measure[OF s1] Cons.IH[OF r] show ?case by auto
qed

function coverLoop :: "TechMapper \<Rightarrow> uint set \<Rightarrow> error + TechMapper" where
  "coverLoop tm currentIteration =
     (if currentIteration = {} then Inr tm
      else (case foldE coverNode (sorted_list_of_set currentIteration) (tm, {}) of
              Inl err \<Rightarrow> Inl err
            | Inr (tm', nextIteration) \<Rightarrow> coverLoop tm' nextIteration))"
  by pat_completeness auto
termination
proof (relation "measures [\<lambda>(tm, cur). uncovered tm, \<lambda>(tm, cur). if cur = {} then 0 else 1]")
  show "wf (measures [\<lambda>(tm, cur). uncovered tm, \<lambda>(tm, cur). if cur = {} then 0 else 1])" by simp
next
  fix tm :: TechMapper and currentIteration :: "uint set" and x2 x y
  assume ne: "currentIteration \<noteq> {}"
    and f: "foldE coverNode (sorted_list_of_set currentIteration) (tm, {}) = Inr x2"
    and x2: "(x, y) = x2"
  from f x2 have "foldE coverNode (sorted_list_of_set currentIteration) (tm, {}) = Inr (x, y)" by simp
  from foldE_coverNode_measure[OF this] ne
  show "((x, y), tm, currentIteration) \<in> measures [\<lambda>(tm, cur). uncovered tm, \<lambda>(tm, cur). if cur = {} then 0 else 1]"
    by auto
qed

declare coverLoop.simps [simp del]

text \<open>The body of the loop of \<open>run\<close> over the output literals. The result is \<open>None\<close>
  when \<open>findCuts\<close> runs out of fuel.\<close>

definition mapOutput :: "sorter \<Rightarrow> nat \<Rightarrow> uint \<Rightarrow> TechMapper \<Rightarrow> (error + TechMapper) option" where
  "mapOutput srt fuel outputLiteral tm =
     (if nodeIsAnd (aigOf (cutEngine tm)) outputLiteral then
        (let evenOutputLiteral =
               (if outputLiteral mod 2 = 1 then outputLiteral - 1 else outputLiteral) in
         if notCovered (coverMap tm) evenOutputLiteral then
           (case findCuts srt fuel (cutEngine tm) outputLiteral of
              None \<Rightarrow> None
            | Some (Inl err) \<Rightarrow> Some (Inl err)
            | Some (Inr e') \<Rightarrow>
                Some (bindE (getBestCut e' evenOutputLiteral) (\<lambda>outputBestCut.
                  let maxDepth = delayCost outputBestCut in
                  coverLoop
                    (tm\<lparr>cutEngine := e',
                        coverMap := (coverMap tm)(evenOutputLiteral \<mapsto> True),
                        mappingAreaCost := mappingAreaCost tm + 1,
                        mappingDelayCost := (if mappingDelayCost tm < maxDepth then maxDepth
                                             else mappingDelayCost tm)\<rparr>)
                    (andLiteralsOf (aigOf e') outputBestCut))))
         else Some (Inr tm))
      else if nodeIsInput (aigOf (cutEngine tm)) outputLiteral \<or> outputLiteral < 2 then
        Some (Inr (tm\<lparr>mappingAreaCost := mappingAreaCost tm + 1,
                       mappingDelayCost := (if mappingDelayCost tm < 1 then 1
                                            else mappingDelayCost tm)\<rparr>))
      else Some (Inr tm))"

fun runOutputs :: "sorter \<Rightarrow> nat \<Rightarrow> uint list \<Rightarrow> TechMapper \<Rightarrow> (error + TechMapper) option" where
  "runOutputs srt fuel [] tm = Some (Inr tm)"
| "runOutputs srt fuel (outputLiteral # rest) tm =
     (case mapOutput srt fuel outputLiteral tm of
        None \<Rightarrow> None
      | Some (Inl err) \<Rightarrow> Some (Inl err)
      | Some (Inr tm') \<Rightarrow> runOutputs srt fuel rest tm')"

text \<open>\<open>TechMapper::run\<close>; \<open>fuel\<close> bounds the iterations of each call of \<open>findCuts\<close>.\<close>

definition run :: "sorter \<Rightarrow> nat \<Rightarrow> TechMapper \<Rightarrow> (error + TechMapper) option" where
  "run srt fuel tm = runOutputs srt fuel (outputLiteralVector (aigOf (cutEngine tm))) tm"


subsection \<open>The command line\<close>

text \<open>\<open>printResults\<close> writes three lines; \<open>showNat\<close> is the decimal output of
  \<open>operator<<\<close> for an unsigned number.\<close>

fun showNat :: "nat \<Rightarrow> string" where
  "showNat n =
     (if n < 10 then [char_of (48 + n)]
      else showNat (n div 10) @ [char_of (48 + n mod 10)])"

declare showNat.simps [simp del]

definition printResults :: "TechMapper \<Rightarrow> string list" where
  "printResults tm =
     [''>> Technology Mapping results'',
      ''# LUT count: '' @ showNat (unat (mappingAreaCost tm)),
      ''# Levels: '' @ showNat (unat (mappingDelayCost tm))]"

text \<open>\<open>std::atoi\<close> of the C library, for the arguments \<open>k\<close> and \<open>c\<close>: leading white
  space, an optional sign, then decimal digits; 0 when there is no digit. The library
  computes it as \<open>(int) strtol (str, NULL, 10)\<close>: \<open>strtol\<close> saturates at the bounds of
  \<open>long\<close> (64 bits), and the conversion to \<open>int\<close> keeps the low 32 bits.\<close>

fun digitsValue :: "nat \<Rightarrow> string \<Rightarrow> nat" where
  "digitsValue acc [] = acc"
| "digitsValue acc (ch # rest) =
     (if 48 \<le> (of_char ch :: nat) \<and> (of_char ch :: nat) \<le> 57
      then digitsValue (10 * acc + ((of_char ch :: nat) - 48)) rest
      else acc)"

definition strtol :: "string \<Rightarrow> int" where
  "strtol str =
     (case dropWhile (\<lambda>ch. of_char ch \<in> {32 :: nat, 9, 10, 11, 12, 13}) str of
        [] \<Rightarrow> 0
      | ch # rest \<Rightarrow>
          if ch = CHR ''-'' then max (- (2 ^ 63)) (- int (digitsValue 0 rest))
          else if ch = CHR ''+'' then min (2 ^ 63 - 1) (int (digitsValue 0 rest))
          else min (2 ^ 63 - 1) (int (digitsValue 0 (ch # rest))))"

definition atoi :: "string \<Rightarrow> int" where
  "atoi str = sint (word_of_int (strtol str) :: 32 word)"

record ProcessResult =
  exitCode :: int
  stdoutLines :: "string list"
  stderrLines :: "string list"

text \<open>The handler of the function-try-block of \<open>main\<close>: it writes to \<open>std::cerr\<close> and
  has no \<open>return\<close> statement. Control that flows off the end of a handler of the
  function-try-block of \<open>main\<close> flows off the end of \<open>main\<close>, which is \<open>return 0\<close>.\<close>

definition mainHandler :: "string \<Rightarrow> ProcessResult" where
  "mainHandler what =
     \<lparr>exitCode = 0, stdoutLines = [],
      stderrLines = [''An error has ocurred.'', ''  what(): '' @ what]\<rparr>"

text \<open>\<open>main\<close>. The file system and the AIGER parser are the parameter \<open>loadAig\<close>: the
  graph read from a path, or the message of the exception the constructor throws.
  \<open>what\<close> gives the message of an error of the engine, \<open>srt\<close> is the library's sort. Of the standard output only the
  lines of \<open>printResults\<close> are modelled; the dumps that follow it are left out.\<close>

definition main ::
  "(string \<Rightarrow> string + AndInverterGraph) \<Rightarrow> (error \<Rightarrow> string) \<Rightarrow> sorter \<Rightarrow> nat
   \<Rightarrow> string list \<Rightarrow> ProcessResult option" where
  "main loadAig what srt fuel argv =
     (let k = (if length argv > 2 then atoi (argv ! 2) else 6);
          c = (if length argv > 3 then atoi (argv ! 3) else 0);
          inputFile = (if length argv > 1 then argv ! 1 else []);
          mg = (if length argv > 4 \<and> take 1 (argv ! 4) = ''d'' then MinimizeDelay
                else MinimizeArea)
      in if inputFile \<noteq> [] then
           (case loadAig inputFile of
              Inl msg \<Rightarrow> Some (mainHandler msg)
            | Inr g \<Rightarrow>
                (case newCutEngine g mg (of_int k) (of_int c) of
                   Inl err \<Rightarrow> Some (mainHandler (what err))
                 | Inr e \<Rightarrow>
                     (case run srt fuel (newTechMapper e) of
                        None \<Rightarrow> None
                      | Some (Inl err) \<Rightarrow> Some (mainHandler (what err))
                      | Some (Inr tm) \<Rightarrow>
                          Some \<lparr>exitCode = 0, stdoutLines = printResults tm,
                                stderrLines = []\<rparr>)))
         else Some \<lparr>exitCode = 0, stdoutLines = [], stderrLines = []\<rparr>)"

text \<open>What \<open>main\<close> does between reading the graph and printing: the engine is built,
  the mapper is built on it and run.\<close>

definition mapDesign ::
  "sorter \<Rightarrow> nat \<Rightarrow> AndInverterGraph \<Rightarrow> MappingGoal \<Rightarrow> uint \<Rightarrow> uint
   \<Rightarrow> (error + TechMapper) option" where
  "mapDesign srt fuel g goal k c =
     (case newCutEngine g goal k c of
        Inl err \<Rightarrow> Some (Inl err)
      | Inr e \<Rightarrow> run srt fuel (newTechMapper e))"

text \<open>The area and depth that \<open>printResults\<close> reports after a run.\<close>

definition reported :: "(error + TechMapper) option \<Rightarrow> (uint \<times> uint) option" where
  "reported r =
     (case r of Some (Inr tm) \<Rightarrow> Some (mappingAreaCost tm, mappingDelayCost tm) | _ \<Rightarrow> None)"

section \<open>Auxiliary notions\<close>

text \<open>The engine as its constructor leaves it.\<close>

definition freshEngine :: "AndInverterGraph \<Rightarrow> MappingGoal \<Rightarrow> uint \<Rightarrow> uint \<Rightarrow> CutEngine" where
  "freshEngine g goal k c =
     \<lparr>aigOf = g, lutInputs = k, pruneBound = c, mappingGoal = goal,
      cutSetVector = replicate (unat (numAnds g)) [],
      implementationMap = initImplementationMap g\<rparr>"

text \<open>The engine after one iteration of the loop of \<open>findCuts\<close> with \<open>t\<close> on top of
  the stack, or \<open>e\<close> itself when the iteration raises.\<close>

definition bodyEngine :: "sorter \<Rightarrow> CutEngine \<Rightarrow> uint \<Rightarrow> CutEngine" where
  "bodyEngine srt e t = (case findCutsBody srt e t of Inr (nxt, e') \<Rightarrow> e' | Inl err \<Rightarrow> e)"

text \<open>A second call of \<open>run\<close> on the mapper a first call has left.\<close>

definition runAgain :: "sorter \<Rightarrow> nat \<Rightarrow> (error + TechMapper) option \<Rightarrow> (error + TechMapper) option" where
  "runAgain srt fuel r = (case r of Some (Inr tm) \<Rightarrow> run srt fuel tm | _ \<Rightarrow> r)"

text \<open>The literal of the same node with the polarity bit cleared.\<close>

definition evenLiteral :: "uint \<Rightarrow> uint" where
  "evenLiteral l = (if l mod 2 = 1 then l - 1 else l)"

text \<open>What a step of \<open>run\<close> keeps: the graph, the nodes already marked as covered,
  and a depth that does not decrease.\<close>

definition extends :: "TechMapper \<Rightarrow> TechMapper \<Rightarrow> bool" where
  "extends tm tm' \<longleftrightarrow>
     aigOf (cutEngine tm') = aigOf (cutEngine tm)
     \<and> (\<forall>l. coverMap tm l = Some True \<longrightarrow> coverMap tm' l = Some True)
     \<and> mappingDelayCost tm \<le> mappingDelayCost tm'"

text \<open>The outputs that \<open>run\<close> charges without looking at the cover: the second
  branch of its loop, for primary inputs and the constants.\<close>

definition isDirect :: "AndInverterGraph \<Rightarrow> uint \<Rightarrow> bool" where
  "isDirect g l \<longleftrightarrow> \<not> nodeIsAnd g l \<and> (nodeIsInput g l \<or> l < 2)"

definition directOutputs :: "AndInverterGraph \<Rightarrow> uint list" where
  "directOutputs g = filter (isDirect g) (outputLiteralVector g)"

section \<open>Example designs\<close>

text \<open>Scenario S3 of the specification: inputs 2 and 4, and-nodes \<open>6 = 4 \<and> 2\<close>,
  \<open>8 = 6 \<and> 2\<close>, \<open>10 = 6 \<and> 4\<close>, outputs 8 and 10.\<close>

definition sharedDesign :: AndInverterGraph where
  "sharedDesign =
     \<lparr>maxVariableIndex = 5, numInputs = 2, numLatches = 0, numOutputs = 2, numAnds = 3,
      outputLiteralVector = [8, 10],
      andVector = [\<lparr>fanout = 2, firstChild = 4, secondChild = 2\<rparr>,
                   \<lparr>fanout = 1, firstChild = 6, secondChild = 2\<rparr>,
                   \<lparr>fanout = 1, firstChild = 6, secondChild = 4\<rparr>],
      latchVector = []\<rparr>"


text \<open>A design without and-nodes whose only output is its only input, literal 2.\<close>

definition wireDesign :: AndInverterGraph where
  "wireDesign =
     \<lparr>maxVariableIndex = 1, numInputs = 1, numLatches = 0, numOutputs = 1, numAnds = 0,
      outputLiteralVector = [2],
      andVector = [],
      latchVector = []\<rparr>"

text \<open>A design with a negated edge: inputs 2 and 4, and-nodes \<open>6 = 4 \<and> 2\<close> and
  \<open>8 = 7 \<and> 2\<close>, whose first child is the negation of node 6; output 8.\<close>

definition negatedDesign :: AndInverterGraph where
  "negatedDesign =
     \<lparr>maxVariableIndex = 4, numInputs = 2, numLatches = 0, numOutputs = 1, numAnds = 2,
      outputLiteralVector = [8],
      andVector = [\<lparr>fanout = 1, firstChild = 4, secondChild = 2\<rparr>,
                   \<lparr>fanout = 1, firstChild = 7, secondChild = 2\<rparr>],
      latchVector = []\<rparr>"

text \<open>The states of \<open>findCuts\<close> on literal 8 of that design, with \<open>k = 2\<close> and \<open>c = 0\<close>
  and the insertion sort:
  the new engine, the engine after literal 7 has been pushed, after node 7 has been
  processed, and after node 8 has been processed.\<close>

definition negatedInit :: CutEngine where
  "negatedInit = freshEngine negatedDesign MinimizeArea 2 0"

definition negatedPushed :: CutEngine where
  "negatedPushed = bodyEngine insertionSort negatedInit 8"

definition negatedMarked :: CutEngine where
  "negatedMarked = bodyEngine insertionSort negatedPushed 7"

definition negatedDone :: CutEngine where
  "negatedDone = bodyEngine insertionSort negatedMarked 8"

section \<open>Well-formed graphs and reachable engine states\<close>

text \<open>The integrity checks that the constructor of \<open>AndInverterGraph\<close> runs on the
  and-node it reads at position \<open>i\<close>, in both file formats: the node's literal is
  \<open>2 * (i + I + L + 1)\<close>, and a node is refused when \<open>rhs0 < rhs1\<close>, when
  \<open>andLiteral \<le> rhs0\<close> or \<open>andLiteral \<le> rhs1\<close>, and when a child is a constant.\<close>

definition literalFromAndVectorIndex :: "AndInverterGraph \<Rightarrow> nat \<Rightarrow> uint" where
  "literalFromAndVectorIndex g i =
     literalFromIndex (of_nat i + numInputs g + numLatches g + 1)"

definition andNodesChecked :: "AndInverterGraph \<Rightarrow> bool" where
  "andNodesChecked g \<longleftrightarrow>
     (\<forall>i < length (andVector g).
        \<not> firstChild (andVector g ! i) < secondChild (andVector g ! i)
        \<and> \<not> (literalFromAndVectorIndex g i \<le> firstChild (andVector g ! i)
              \<or> literalFromAndVectorIndex g i \<le> secondChild (andVector g ! i))
        \<and> \<not> (firstChild (andVector g ! i) < 2 \<or> secondChild (andVector g ! i) < 2))"

text \<open>AIGER numbers the variables of a design from 1 to \<open>M = I + L + A\<close> and writes
  the literals \<open>2 * v\<close> and \<open>2 * v + 1\<close>; they fit an \<open>unsigned int\<close> when \<open>M\<close> is below
  \<open>2 ^ 31\<close>.\<close>

definition aigFits :: "AndInverterGraph \<Rightarrow> bool" where
  "aigFits g \<longleftrightarrow> unat (numInputs g) + unat (numLatches g) + unat (numAnds g) < 2 ^ 31"

text \<open>The states of an engine while it is in use, as a step relation on the pair of
  the processing stack of \<open>findCuts\<close> (top first) and the engine; \<open>e0\<close> is the engine as
  constructed and \<open>srt\<close> the library's sort. Between calls the stack is empty. A call of \<open>findCuts\<close> on a literal
  without a cut set pushes the literal; every iteration of the loop pushes a child or
  pops the top; an exception leaves the loop with the engine as it is.\<close>

inductive reach :: "sorter \<Rightarrow> CutEngine \<Rightarrow> uint list \<times> CutEngine \<Rightarrow> bool"
  for srt :: sorter and e0 :: CutEngine where
  constructed: "reach srt e0 ([], e0)"
| called: "reach srt e0 ([], e) \<Longrightarrow> nodeIsAnd (aigOf e) l \<Longrightarrow> getCutSet e l = Inr []
           \<Longrightarrow> reach srt e0 ([l], e)"
| pushed: "reach srt e0 (t # stack, e) \<Longrightarrow> findCutsBody srt e t = Inr (Some child, e')
           \<Longrightarrow> reach srt e0 (child # t # stack, e')"
| popped: "reach srt e0 (t # stack, e) \<Longrightarrow> findCutsBody srt e t = Inr (None, e')
           \<Longrightarrow> reach srt e0 (stack, e')"
| thrown: "reach srt e0 (stack, e) \<Longrightarrow> reach srt e0 ([], e)"

text \<open>The cuts with a given leaf set in a cut set.\<close>

definition cutsWithLeaves :: "uint set \<Rightarrow> CutSet \<Rightarrow> Cut list" where
  "cutsWithLeaves vs cutSet = filter (\<lambda>ct. nodeVariables ct = vs) cutSet"

text \<open>What \<open>diamondOperation\<close> does for a pair of cuts \<open>x\<close> and \<open>y\<close> whose union it
  inserts as the cut \<open>ct\<close>.\<close>

definition unionOf :: "CutEngine \<Rightarrow> uint \<Rightarrow> Cut \<Rightarrow> Cut \<Rightarrow> Cut \<Rightarrow> bool" where
  "unionOf e k x y ct \<longleftrightarrow>
     nodeVariables x \<noteq> {} \<and> nodeVariables y \<noteq> {}
     \<and> nodeVariables ct = nodeVariables x \<union> nodeVariables y
     \<and> \<not> k < numNodeVariables ct
     \<and> allCostsSet x \<and> allCostsSet y \<and> allCostsSet ct
     \<and> areaCost ct = of_nat (card (unimplementedNodes e ct))
     \<and> delayCost ct = estimateUnionCutDelayCost x y
     \<and> powerCost ct = 0"

text \<open>The invariant of the stored cut sets: no two cuts of a set have the same
  leaves; every cut has at least one and at most \<open>k\<close> leaves, all of them variable
  indices of literals, a delay of at least 1, power 0 and all three costs set.\<close>

definition cutInv :: "uint \<Rightarrow> Cut \<Rightarrow> bool" where
  "cutInv k ct \<longleftrightarrow>
     nodeVariables ct \<noteq> {} \<and> (\<forall>v \<in> nodeVariables ct. v < 2 ^ 31)
     \<and> card (nodeVariables ct) \<le> unat k
     \<and> 1 \<le> delayCost ct \<and> allCostsSet ct \<and> powerCost ct = 0"

definition cutSetsInv :: "CutEngine \<Rightarrow> bool" where
  "cutSetsInv e \<longleftrightarrow>
     (\<forall>cs \<in> set (cutSetVector e).
        distinct (map nodeVariables cs) \<and> (\<forall>ct \<in> set cs. cutInv (lutInputs e) ct))"

text \<open>On a graph whose and-nodes passed the checks, the leaves of the cuts stored for
  an and-node are variables below the node's own.\<close>

definition leavesBelow :: "CutEngine \<Rightarrow> bool" where
  "leavesBelow e \<longleftrightarrow>
     (\<forall>l cs. getCutSet e l = Inr cs \<longrightarrow>
        (\<forall>ct \<in> set cs. \<forall>v \<in> nodeVariables ct. v < indexFromLiteral l))"

text \<open>The engine a result holds, or \<open>e0\<close> when it holds none.\<close>

definition engineAfter :: "CutEngine \<Rightarrow> (error + CutEngine) option \<Rightarrow> CutEngine" where
  "engineAfter e0 r = (case r of Some (Inr e) \<Rightarrow> e | _ \<Rightarrow> e0)"

text \<open>The invariant of the implementation map. While an and-node has no cut set, the
  entry of its even literal is \<open>false\<close> and its odd literal has no entry; and whenever
  an odd and-literal is marked, the entry of the even literal of the same node is
  \<open>false\<close>.\<close>

definition mapInv :: "CutEngine \<Rightarrow> bool" where
  "mapInv e \<longleftrightarrow>
     (\<forall>l. nodeIsAnd (aigOf e) l \<and> getCutSet e l = Inr [] \<longrightarrow>
          implementationMap e l = (if l mod 2 = 1 then None else Some False))
     \<and> (\<forall>l. nodeIsAnd (aigOf e) l \<and> l mod 2 = 1 \<and> implementationMap e l = Some True \<longrightarrow>
          implementationMap e (l - 1) = Some False)"

text \<open>The invariant of the processing stack (top first): its entries are and-literals
  without a cut set, and every entry is a node below the entry under it.\<close>

definition stackInv :: "CutEngine \<Rightarrow> uint list \<Rightarrow> bool" where
  "stackInv e stack \<longleftrightarrow>
     (\<forall>t \<in> set stack. nodeIsAnd (aigOf e) t \<and> getCutSet e t = Inr [])
     \<and> sorted_wrt (\<lambda>a b. indexFromLiteral a < indexFromLiteral b) stack"

text \<open>The constructor gives the even literal of every and-node an entry in the
  implementation map, and no entry is ever removed.\<close>

definition entriesInv :: "CutEngine \<Rightarrow> bool" where
  "entriesInv e \<longleftrightarrow>
     (\<forall>l. nodeIsAnd (aigOf e) l \<and> l mod 2 \<noteq> 1 \<longrightarrow> implementationMap e l \<noteq> None)"

text \<open>The cuts that an engine state hands to \<open>diamondOperation\<close>: \<open>phiOperation\<close> passes
  the cut sets of the two children, each with the child's autocut emplaced, so every
  cut is stored in one of the engine's cut sets or built by \<open>generateAutoCut\<close>.\<close>

definition engineCut :: "CutEngine \<Rightarrow> Cut \<Rightarrow> bool" where
  "engineCut e ct \<longleftrightarrow>
     (\<exists>cs \<in> set (cutSetVector e). ct \<in> set cs) \<or> (\<exists>l. generateAutoCut e l = Inr ct)"

section \<open>The diamond operation as the specification words it\<close>

text \<open>Section 4.6 of the specification: for each pair \<open>(x, y)\<close> of the product of the two
  cut sets, in the order of the iteration, the union \<open>u\<close> of the leaves is formed and
  discarded when it has more than \<open>k\<close> leaves; otherwise it is emplaced into the result,
  and when newly inserted it gets as area the number of its leaves that are and-nodes
  with a \<open>false\<close> entry in the implementation map, as delay the maximum of the delays of
  \<open>x\<close> and \<open>y\<close>, and power 0.\<close>

definition unionCandidate :: "CutEngine \<Rightarrow> Cut \<Rightarrow> Cut \<Rightarrow> Cut" where
  "unionCandidate e x y =
     \<lparr>nodeVariables = nodeVariables x \<union> nodeVariables y,
      areaCost = of_nat (card (Set.filter
                   (\<lambda>v. nodeIsAnd (aigOf e) (literalFromIndex v)
                        \<and> implementationMap e (literalFromIndex v) = Some False)
                   (nodeVariables x \<union> nodeVariables y))),
      delayCost = max (delayCost x) (delayCost y),
      powerCost = 0\<rparr>"

text \<open>Emplacing candidates one after the other: a candidate whose leaf set is already
  present is dropped, so of several candidates with the same leaves the first stays.\<close>

fun mergeByLeaves :: "Cut list \<Rightarrow> Cut list \<Rightarrow> Cut list" where
  "mergeByLeaves acc [] = acc"
| "mergeByLeaves acc (ct # cts) =
     (if \<exists>z \<in> set acc. nodeVariables z = nodeVariables ct then mergeByLeaves acc cts
      else mergeByLeaves (acc @ [ct]) cts)"

definition feasiblePairs :: "CutSet \<Rightarrow> CutSet \<Rightarrow> uint \<Rightarrow> (Cut \<times> Cut) list" where
  "feasiblePairs cutSetA cutSetB k =
     filter (\<lambda>(x, y). card (nodeVariables x \<union> nodeVariables y) \<le> unat k)
            (List.product cutSetA cutSetB)"

definition diamondSpec :: "CutEngine \<Rightarrow> CutSet \<Rightarrow> CutSet \<Rightarrow> uint \<Rightarrow> CutSet" where
  "diamondSpec e cutSetA cutSetB k =
     mergeByLeaves [] (map (\<lambda>(x, y). unionCandidate e x y) (feasiblePairs cutSetA cutSetB k))"

text \<open>The cuts on which \<open>diamondOperation\<close> does not raise: all costs set, at least one
  leaf, leaves that are variable indices of literals, and an entry in the implementation
  map for every leaf that is an and-node.\<close>

definition diamondInput :: "CutEngine \<Rightarrow> Cut \<Rightarrow> bool" where
  "diamondInput e ct \<longleftrightarrow>
     allCostsSet ct \<and> nodeVariables ct \<noteq> {}
     \<and> (\<forall>v \<in> nodeVariables ct.
           v < 2 ^ 31
           \<and> (nodeIsAnd (aigOf e) (literalFromIndex v) \<longrightarrow>
                implementationMap e (literalFromIndex v) \<noteq> None))"

section \<open>Runs whose result does not depend on the sort\<close>

text \<open>The comparator that \<open>sortCutSet\<close> and \<open>sortAndChooseBestCuts\<close> pass to the sort.\<close>

definition goalComparator :: "MappingGoal \<Rightarrow> Cut \<Rightarrow> Cut \<Rightarrow> bool" where
  "goalComparator goal = (case goal of MinimizeArea \<Rightarrow> cutAreaComparision
                                       | MinimizeDelay \<Rightarrow> cutDelayComparision)"

text \<open>A list whose elements are ordered strictly by the comparator, each before all
  that follow, has no other sorted permutation: every sort that meets the contract
  returns it. \<open>sortDetermined\<close> checks this for the cut set that \<open>phiOperation\<close> builds for
  the node \<open>t\<close>, \<open>loopDetermined\<close> along the loop of \<open>findCuts\<close> run with the insertion
  sort, and \<open>outputsDetermined\<close> along the loop of \<open>run\<close> over the output literals.\<close>

definition sortDetermined :: "CutEngine \<Rightarrow> uint \<Rightarrow> bool" where
  "sortDetermined e t =
     (case phiOperation e t of
        Inl err \<Rightarrow> True
      | Inr R \<Rightarrow> sorted_wrt (goalComparator (mappingGoal e))
                   (insertionSort (goalComparator (mappingGoal e)) R))"

fun loopDetermined :: "nat \<Rightarrow> uint list \<Rightarrow> CutEngine \<Rightarrow> bool" where
  "loopDetermined fuel [] e = True"
| "loopDetermined 0 (t # stack) e = True"
| "loopDetermined (Suc fuel) (t # stack) e =
     (sortDetermined e t
      \<and> (case findCutsBody insertionSort e t of
            Inl err \<Rightarrow> True
          | Inr (Some child, e') \<Rightarrow> loopDetermined fuel (child # t # stack) e'
          | Inr (None, e') \<Rightarrow> loopDetermined fuel stack e'))"

fun outputsDetermined :: "nat \<Rightarrow> uint list \<Rightarrow> TechMapper \<Rightarrow> bool" where
  "outputsDetermined fuel [] tm = True"
| "outputsDetermined fuel (outputLiteral # rest) tm =
     (loopDetermined fuel [outputLiteral] (cutEngine tm)
      \<and> (case mapOutput insertionSort fuel outputLiteral tm of
            Some (Inr tm') \<Rightarrow> outputsDetermined fuel rest tm'
          | _ \<Rightarrow> True))"

section \<open>The iteration bound\<close>

text \<open>A run that ends within \<open>n\<close> iterations gives the same result with any larger
  bound.\<close>

lemma findCutsLoop_more_fuel:
  "findCutsLoop srt n stack e = Some r \<Longrightarrow> findCutsLoop srt (n + m) stack e = Some r"
proof (induction srt n stack e rule: findCutsLoop.induct)
  case (1 srt fuel e)
  then show ?case by simp
next
  case (2 srt t stack e)
  then show ?case by simp
next
  case (3 srt fuel t stack e)
  show ?case
  proof (cases "findCutsBody srt e t")
    case (Inl err)
    with "3.prems" show ?thesis by simp
  next
    case (Inr p)
    obtain nxt e' where p: "p = (nxt, e')" by (cases p)
    show ?thesis
    proof (cases nxt)
      case None
      with "3.prems" "3.IH"(1)[OF Inr p[symmetric] None] Inr p show ?thesis by simp
    next
      case (Some child)
      with "3.prems" "3.IH"(2)[OF Inr p[symmetric] Some] Inr p show ?thesis by simp
    qed
  qed
qed

lemma findCuts_more_fuel:
  "findCuts srt n e l = Some r \<Longrightarrow> findCuts srt (n + m) e l = Some r"
  unfolding findCuts_def
  by (auto split: if_splits sum.splits option.splits dest: findCutsLoop_more_fuel[where m = m])

lemma mapOutput_more_fuel:
  "mapOutput srt n l tm = Some r \<Longrightarrow> mapOutput srt (n + m) l tm = Some r"
  unfolding mapOutput_def Let_def
  by (auto split: if_splits sum.splits option.splits dest: findCuts_more_fuel[where m = m])

lemma runOutputs_more_fuel:
  "runOutputs srt n ls tm = Some r \<Longrightarrow> runOutputs srt (n + m) ls tm = Some r"
  by (induction ls arbitrary: tm)
     (auto split: sum.splits option.splits dest: mapOutput_more_fuel[where m = m])

lemma run_more_fuel: "run srt n tm = Some r \<Longrightarrow> run srt (n + m) tm = Some r"
  unfolding run_def by (rule runOutputs_more_fuel)

lemma mapDesign_more_fuel:
  "mapDesign srt n g goal k c = Some r \<Longrightarrow> mapDesign srt (n + m) g goal k c = Some r"
  unfolding mapDesign_def by (auto split: sum.splits dest: run_more_fuel[where m = m])

lemma reported_more_fuel:
  "reported (mapDesign srt n g goal k c) = Some r \<Longrightarrow> reported (mapDesign srt (n + m) g goal k c) = Some r"
  unfolding reported_def
  by (auto split: sum.splits option.splits dest: mapDesign_more_fuel[where m = m])

section \<open>Basic facts\<close>





lemma bindE_Inl_iff: "(\<exists>err. bindE m f = Inl err) \<longleftrightarrow> (\<exists>err. m = Inl err) \<or> (\<exists>x. m = Inr x \<and> (\<exists>err. f x = Inl err))"
  by (cases m) (auto simp: bindE_def)

lemma one_le_word_iff: "(1::uint) \<le> x \<longleftrightarrow> x \<noteq> 0"
  by (auto simp: word_le_nat_alt unat_eq_0 Suc_le_eq unat_gt_0)

lemma word_lt_one_iff: "x < (1::uint) \<longleftrightarrow> x = 0"
  by (auto simp: word_less_nat_alt unat_eq_0)

lemma one_plus_ge_one: "d \<noteq> - 1 \<Longrightarrow> (1::uint) \<le> 1 + d"
  unfolding one_le_word_iff
  by (metis add_eq_0_iff)

lemma indexFromLiteral_less: "indexFromLiteral l < 2 ^ 31"
proof -
  have "unat (drop_bit 1 l) = unat l div 2" by (simp add: drop_bit_eq_div unat_div)
  moreover have "unat l < 2 ^ 32" using unsigned_less[of l] by simp
  ultimately have "unat (drop_bit 1 l) < 2 ^ 31" by simp
  then show ?thesis by (simp add: indexFromLiteral_def word_less_nat_alt)
qed

lemma card_small_leaves:
  fixes S :: "uint set"
  assumes "\<forall>v \<in> S. v < 2 ^ 31"
  shows "card S \<le> 2 ^ 31"
proof -
  have "S \<subseteq> of_nat ` {..< (2::nat) ^ 31}"
  proof
    fix v assume "v \<in> S"
    with assms have "unat v < 2 ^ 31" by (auto simp: word_less_nat_alt)
    moreover have "v = of_nat (unat v)" by simp
    ultimately show "v \<in> of_nat ` {..< (2::nat) ^ 31}" by blast
  qed
  then have "card S \<le> card (of_nat ` {..< (2::nat) ^ 31} :: uint set)"
    by (intro card_mono) auto
  also have "\<dots> \<le> card {..< (2::nat) ^ 31}" by (rule card_image_le) simp
  finally show ?thesis by simp
qed

lemma numNodeVariables_small:
  assumes "\<forall>v \<in> nodeVariables ct. v < 2 ^ 31"
  shows "unat (numNodeVariables ct) = card (nodeVariables ct)"
proof -
  from card_small_leaves[OF assms] have "card (nodeVariables ct) < 2 ^ 32" by simp
  then show ?thesis by (simp add: numNodeVariables_def unat_of_nat)
qed

lemma child_index_less:
  assumes "a < literalFromIndex (indexFromLiteral t)"
  shows "indexFromLiteral a < indexFromLiteral t"
proof -
  have t: "unat (indexFromLiteral t) = unat t div 2"
    by (simp add: indexFromLiteral_def drop_bit_eq_div unat_div)
  have a: "unat (indexFromLiteral a) = unat a div 2"
    by (simp add: indexFromLiteral_def drop_bit_eq_div unat_div)
  have "unat t < 2 ^ 32" using unsigned_less[of t] by simp
  then have "unat (literalFromIndex (indexFromLiteral t)) = 2 * (unat t div 2)"
    unfolding literalFromIndex_def indexFromLiteral_def
    by (simp add: unat_word_ariths push_bit_eq_mult drop_bit_eq_div unat_div)
  with assms have "unat a < 2 * (unat t div 2)" by (simp add: word_less_nat_alt)
  then have "unat a div 2 < unat t div 2" by simp
  with a t show ?thesis by (simp add: word_less_nat_alt)
qed

lemma slot_index_inj:
  fixes v w :: uint
  assumes "unat (v - a - b - 1) = unat (w - a - b - 1)"
  shows "v = w"
proof -
  from assms have "v - a - b - 1 = w - a - b - 1" by (simp add: word_unat_eq_iff)
  then show ?thesis by simp
qed

lemma slot_literal: "literalFromAndVectorIndex g (unat (v - numInputs g - numLatches g - 1)) = literalFromIndex v"
  by (simp add: literalFromAndVectorIndex_def)

section \<open>What the loops keep\<close>

text \<open>\<open>findCuts\<close> changes the cut sets and the implementation map of the engine only.\<close>

lemma absorbChild_keeps:
  "absorbChild e b ch = Inr e' \<Longrightarrow>
     aigOf e' = aigOf e \<and> lutInputs e' = lutInputs e \<and> pruneBound e' = pruneBound e
     \<and> mappingGoal e' = mappingGoal e \<and> cutSetVector e' = cutSetVector e"
  by (auto simp: absorbChild_def bindE_def split: if_splits sum.splits)

lemma findCutsBody_keeps:
  "findCutsBody srt e t = Inr (nxt, e') \<Longrightarrow>
     aigOf e' = aigOf e \<and> lutInputs e' = lutInputs e \<and> pruneBound e' = pruneBound e
     \<and> mappingGoal e' = mappingGoal e \<and> length (cutSetVector e') = length (cutSetVector e)"
  unfolding findCutsBody_def Let_def bindE_def
  by (auto split: if_splits sum.splits dest!: absorbChild_keeps)

lemma findCutsLoop_keeps:
  "findCutsLoop srt n stack e = Some (Inr e') \<Longrightarrow>
     aigOf e' = aigOf e \<and> lutInputs e' = lutInputs e \<and> pruneBound e' = pruneBound e
     \<and> mappingGoal e' = mappingGoal e \<and> length (cutSetVector e') = length (cutSetVector e)"
proof (induction srt n stack e rule: findCutsLoop.induct)
  case (1 srt fuel e) then show ?case by simp
next
  case (2 srt t stack e) then show ?case by simp
next
  case (3 srt fuel t stack e)
  from "3.prems" obtain nxt e1 where b: "findCutsBody srt e t = Inr (nxt, e1)"
    by (auto split: sum.splits)
  note k = findCutsBody_keeps[OF b]
  show ?case
  proof (cases nxt)
    case None
    with "3.prems" b have "findCutsLoop srt fuel stack e1 = Some (Inr e')" by simp
    from "3.IH"(1)[OF b refl None this] k show ?thesis by simp
  next
    case (Some child)
    with "3.prems" b have "findCutsLoop srt fuel (child # t # stack) e1 = Some (Inr e')" by simp
    from "3.IH"(2)[OF b refl Some this] k show ?thesis by simp
  qed
qed

lemma findCuts_keeps:
  "findCuts srt n e l = Some (Inr e') \<Longrightarrow>
     aigOf e' = aigOf e \<and> lutInputs e' = lutInputs e \<and> pruneBound e' = pruneBound e
     \<and> mappingGoal e' = mappingGoal e \<and> length (cutSetVector e') = length (cutSetVector e)"
  unfolding findCuts_def
  by (auto split: if_splits sum.splits option.splits dest!: findCutsLoop_keeps)

text \<open>\<open>run\<close> never unmarks a node and never lowers the depth.\<close>

lemma extends_refl: "extends tm tm" by (simp add: extends_def)

lemma extends_trans: "extends a b \<Longrightarrow> extends b c \<Longrightarrow> extends a c"
  by (auto simp: extends_def)

lemma notCovered_iff: "notCovered m l \<longleftrightarrow> m l \<noteq> Some True"
  by (auto simp: notCovered_def split: option.splits)

lemma coverNode_extends:
  "coverNode n (tm, nx) = Inr (tm', nx') \<Longrightarrow>
     extends tm tm' \<and> cutEngine tm' = cutEngine tm \<and> mappingDelayCost tm' = mappingDelayCost tm"
  by (auto simp: coverNode_def bindE_def extends_def split: if_splits sum.splits)

lemma foldE_coverNode_extends:
  "foldE coverNode xs (tm, nx) = Inr (tm', nx') \<Longrightarrow>
     extends tm tm' \<and> cutEngine tm' = cutEngine tm \<and> mappingDelayCost tm' = mappingDelayCost tm"
proof (induction xs arbitrary: tm nx)
  case Nil then show ?case by (simp add: extends_refl)
next
  case (Cons x xs)
  then obtain tm1 nx1 where s1: "coverNode x (tm, nx) = Inr (tm1, nx1)"
    and r: "foldE coverNode xs (tm1, nx1) = Inr (tm', nx')"
    by (auto split: sum.splits)
  from coverNode_extends[OF s1] Cons.IH[OF r] show ?case
    by (auto intro: extends_trans)
qed

lemma coverLoop_extends:
  "coverLoop tm cur = Inr tm' \<Longrightarrow>
     extends tm tm' \<and> cutEngine tm' = cutEngine tm \<and> mappingDelayCost tm' = mappingDelayCost tm"
proof (induction tm cur rule: coverLoop.induct)
  case (1 tm cur)
  show ?case
  proof (cases "cur = {}")
    case True
    with "1.prems" show ?thesis by (simp add: coverLoop.simps extends_refl)
  next
    case False
    with "1.prems" obtain tm1 nx1 where
      f: "foldE coverNode (sorted_list_of_set cur) (tm, {}) = Inr (tm1, nx1)"
      and r: "coverLoop tm1 nx1 = Inr tm'"
      by (subst (asm) coverLoop.simps) (auto split: sum.splits)
    from foldE_coverNode_extends[OF f] "1.IH"[OF False f refl r] show ?thesis
      by (auto intro: extends_trans)
  qed
qed

lemma mapOutput_extends:
  assumes "mapOutput srt fuel l tm = Some (Inr tm')"
  shows "extends tm tm'
         \<and> (nodeIsAnd (aigOf (cutEngine tm)) l \<longrightarrow> coverMap tm' (evenLiteral l) = Some True)
         \<and> (isDirect (aigOf (cutEngine tm)) l \<longrightarrow> 1 \<le> mappingDelayCost tm')"
proof (cases "nodeIsAnd (aigOf (cutEngine tm)) l")
  case isAnd: True
  show ?thesis
  proof (cases "notCovered (coverMap tm) (evenLiteral l)")
    case True
    with isAnd assms obtain e' b where
      fc: "findCuts srt fuel (cutEngine tm) l = Some (Inr e')"
      and bc: "getBestCut e' (evenLiteral l) = Inr b"
      and cl: "coverLoop
                 (tm\<lparr>cutEngine := e',
                     coverMap := (coverMap tm)(evenLiteral l \<mapsto> True),
                     mappingAreaCost := mappingAreaCost tm + 1,
                     mappingDelayCost := (if mappingDelayCost tm < delayCost b then delayCost b
                                          else mappingDelayCost tm)\<rparr>)
                 (andLiteralsOf (aigOf e') b) = Inr tm'"
      by (auto simp: mapOutput_def evenLiteral_def Let_def bindE_def
               split: option.splits sum.splits if_splits)
    from findCuts_keeps[OF fc] have a: "aigOf e' = aigOf (cutEngine tm)" by simp
    from coverLoop_extends[OF cl] a show ?thesis using isAnd
      by (auto simp: extends_def isDirect_def)
  next
    case False
    with isAnd assms have "tm' = tm"
      by (auto simp: mapOutput_def evenLiteral_def Let_def)
    with False isAnd show ?thesis
      by (simp add: extends_refl notCovered_iff isDirect_def)
  qed
next
  case False
  with assms show ?thesis
    by (auto simp: mapOutput_def extends_def isDirect_def one_le_word_iff word_lt_one_iff split: if_splits)
qed


lemma runOutputs_first:
  "runOutputs srt fuel ls tm = Some (Inr tm') \<Longrightarrow>
     extends tm tm'
     \<and> (\<forall>l \<in> set ls. nodeIsAnd (aigOf (cutEngine tm)) l \<longrightarrow>
            coverMap tm' (evenLiteral l) = Some True)
     \<and> ((\<exists>l \<in> set ls. isDirect (aigOf (cutEngine tm)) l) \<longrightarrow> 1 \<le> mappingDelayCost tm')"
proof (induction ls arbitrary: tm)
  case Nil then show ?case by (simp add: extends_refl)
next
  case (Cons l ls)
  then obtain tm1 where m: "mapOutput srt fuel l tm = Some (Inr tm1)"
    and r: "runOutputs srt fuel ls tm1 = Some (Inr tm')"
    by (auto split: option.splits sum.splits)
  note a = mapOutput_extends[OF m] and b = Cons.IH[OF r]
  from a b have e: "extends tm tm'" by (auto intro: extends_trans)
  from a have g: "aigOf (cutEngine tm1) = aigOf (cutEngine tm)" by (simp add: extends_def)
  from b have e1: "extends tm1 tm'" by simp
  have c1: "nodeIsAnd (aigOf (cutEngine tm)) l \<longrightarrow> coverMap tm' (evenLiteral l) = Some True"
    using a e1 by (auto simp: extends_def)
  have c2: "isDirect (aigOf (cutEngine tm)) l \<longrightarrow> 1 \<le> mappingDelayCost tm'"
    using a e1 by (auto simp: extends_def)
  from e b c1 c2 g show ?case by auto
qed

lemma runOutputs_second:
  assumes "\<forall>l \<in> set ls. nodeIsAnd (aigOf (cutEngine tm)) l \<longrightarrow>
              coverMap tm (evenLiteral l) = Some True"
    and "(\<exists>l \<in> set ls. isDirect (aigOf (cutEngine tm)) l) \<longrightarrow> 1 \<le> mappingDelayCost tm"
  shows "runOutputs srt fuel ls tm =
           Some (Inr (tm\<lparr>mappingAreaCost := mappingAreaCost tm
                          + of_nat (length (filter (isDirect (aigOf (cutEngine tm))) ls))\<rparr>))"
  using assms
proof (induction ls arbitrary: tm)
  case Nil then show ?case by simp
next
  case (Cons l ls)
  let ?g = "aigOf (cutEngine tm)"
  show ?case
  proof (cases "nodeIsAnd ?g l")
    case True
    with Cons.prems have "coverMap tm (evenLiteral l) = Some True" by simp
    with True have m: "mapOutput srt fuel l tm = Some (Inr tm)"
      by (simp add: mapOutput_def Let_def notCovered_iff evenLiteral_def)
    from True have nd: "\<not> isDirect ?g l" by (simp add: isDirect_def)
    from Cons.prems nd have "runOutputs srt fuel ls tm =
           Some (Inr (tm\<lparr>mappingAreaCost := mappingAreaCost tm
                          + of_nat (length (filter (isDirect ?g) ls))\<rparr>))"
      by (intro Cons.IH) auto
    with m nd show ?thesis by simp
  next
    case False
    show ?thesis
    proof (cases "isDirect ?g l")
      case d: True
      with Cons.prems have dl: "1 \<le> mappingDelayCost tm" by auto
      then have "\<not> mappingDelayCost tm < 1" by (simp add: word_lt_one_iff one_le_word_iff)
      with d False have m: "mapOutput srt fuel l tm
          = Some (Inr (tm\<lparr>mappingAreaCost := mappingAreaCost tm + 1\<rparr>))"
        by (auto simp: mapOutput_def isDirect_def)
      let ?tm1 = "tm\<lparr>mappingAreaCost := mappingAreaCost tm + 1\<rparr>"
      have "runOutputs srt fuel ls ?tm1 =
           Some (Inr (?tm1\<lparr>mappingAreaCost := mappingAreaCost ?tm1
                          + of_nat (length (filter (isDirect (aigOf (cutEngine ?tm1))) ls))\<rparr>))"
        using Cons.prems dl by (intro Cons.IH) auto
      with m d show ?thesis by (simp add: add.assoc add.commute)
    next
      case nd: False
      with False have m: "mapOutput srt fuel l tm = Some (Inr tm)"
        by (auto simp: mapOutput_def isDirect_def)
      from Cons.prems nd have "runOutputs srt fuel ls tm =
           Some (Inr (tm\<lparr>mappingAreaCost := mappingAreaCost tm
                          + of_nat (length (filter (isDirect ?g) ls))\<rparr>))"
        by (intro Cons.IH) auto
      with m nd show ?thesis by simp
    qed
  qed
qed

lemma reported_SomeD: "reported r = Some (a, d) \<Longrightarrow>
   \<exists>tm. r = Some (Inr tm) \<and> mappingAreaCost tm = a \<and> mappingDelayCost tm = d"
  by (auto simp: reported_def split: option.splits sum.splits)

section \<open>Loops, cut sets and the diamond operation\<close>

lemma foldE_invariant:
  assumes "foldE f xs s = Inr s'" and "I s"
    and "\<And>x r r'. x \<in> set xs \<Longrightarrow> I r \<Longrightarrow> f x r = Inr r' \<Longrightarrow> I r'"
  shows "I s'"
  using assms
proof (induction xs arbitrary: s)
  case Nil then show ?case by simp
next
  case (Cons x xs)
  from Cons.prems(1) obtain s1 where a: "f x s = Inr s1" and b: "foldE f xs s1 = Inr s'"
    by (auto split: sum.splits)
  have "I s1" using Cons.prems(2,3) a by auto
  with b Cons.IH Cons.prems(3) show ?case by auto
qed

lemma bindE_Inr_iff: "bindE m f = Inr y \<longleftrightarrow> (\<exists>x. m = Inr x \<and> f x = Inr y)"
  by (cases m) (auto simp: bindE_def)

lemma findCut_None_iff:
  "findCut c cs = None \<longleftrightarrow> (\<forall>x \<in> set cs. nodeVariables x \<noteq> nodeVariables c)"
  by (induction cs) (auto simp: cutEq_def split: option.splits)

lemma findCut_Some_less: "findCut c cs = Some i \<Longrightarrow> i < length cs"
  by (induction cs arbitrary: i) (auto split: option.splits if_splits)

lemma emplace_cases:
  "emplace cs c = (cs', i, fresh) \<Longrightarrow>
     (fresh \<and> cs' = cs @ [c] \<and> i = length cs
        \<and> (\<forall>x \<in> set cs. nodeVariables x \<noteq> nodeVariables c))
     \<or> (\<not> fresh \<and> cs' = cs \<and> (\<exists>x \<in> set cs. nodeVariables x = nodeVariables c))"
  by (auto simp: emplace_def findCut_None_iff split: option.splits)
     (metis findCut_None_iff option.distinct(1))

lemma set_fst_emplace: "set (fst (emplace cs c)) \<subseteq> insert c (set cs)"
  by (auto simp: emplace_def split: option.splits)

lemma contract_mset:
  assumes "stdSortContract srt" and "lt = cutAreaComparision \<or> lt = cutDelayComparision"
  shows "mset (srt lt xs) = mset xs"
  using assms by (auto simp: stdSortContract_def sortsBy_def)

lemma contract_sorted:
  assumes "stdSortContract srt" and "lt = cutAreaComparision \<or> lt = cutDelayComparision"
  shows "sorted_wrt (\<lambda>a b. \<not> lt b a) (srt lt xs)"
  using assms by (auto simp: stdSortContract_def sortsBy_def)

lemma mset_sortCutSet:
  "stdSortContract srt \<Longrightarrow> mset (sortCutSet srt cs goal) = mset cs"
  by (cases goal) (simp_all add: sortCutSet_def contract_mset)

lemma set_sortCutSet:
  assumes "stdSortContract srt"
  shows "set (sortCutSet srt cs goal) = set cs"
  using mset_sortCutSet[OF assms, of cs goal] by (rule mset_eq_setD)

lemma distinct_sortCutSet:
  assumes "stdSortContract srt"
  shows "distinct (map f (sortCutSet srt cs goal)) \<longleftrightarrow> distinct (map f cs)"
proof -
  have "mset (map f (sortCutSet srt cs goal)) = mset (map f cs)"
    using mset_sortCutSet[OF assms, of cs goal] by (metis mset_map)
  then show ?thesis by (rule mset_eq_imp_distinct_iff)
qed

lemma sortAndChooseBestCuts_take:
  "sortAndChooseBestCuts srt cs c goal = sortCutSet srt cs goal
   \<or> sortAndChooseBestCuts srt cs c goal = take (unat c) (sortCutSet srt cs goal)"
  by (cases goal) (simp_all add: sortAndChooseBestCuts_def sortCutSet_def Let_def)

lemma set_sortAndChooseBestCuts:
  assumes "stdSortContract srt"
  shows "set (sortAndChooseBestCuts srt cs c goal) \<subseteq> set cs"
  using sortAndChooseBestCuts_take[of srt cs c goal] set_sortCutSet[OF assms, of cs goal]
    set_take_subset[of "unat c" "sortCutSet srt cs goal"]
  by auto

lemma distinct_sortAndChooseBestCuts:
  assumes "stdSortContract srt" and "distinct (map f cs)"
  shows "distinct (map f (sortAndChooseBestCuts srt cs c goal))"
  using sortAndChooseBestCuts_take[of srt cs c goal] distinct_sortCutSet[OF assms(1), of f cs goal]
    assms(2)
  by (auto simp: take_map[symmetric] intro: distinct_take)


lemma unimplementedNodes_cong:
  "nodeVariables a = nodeVariables b \<Longrightarrow> unimplementedNodes e a = unimplementedNodes e b"
  by (simp add: unimplementedNodes_def)

lemma diamondBody_cases:
  assumes "diamondBody e l k x y d = Inr d'"
  shows "d' = d \<or> (\<exists>ct. d' = d @ [ct]
            \<and> (\<forall>z \<in> set d. nodeVariables z \<noteq> nodeVariables ct) \<and> unionOf e k x y ct)"
proof -
  from assms obtain u where u: "cutUnion x y = Inr u"
    by (auto simp: diamondBody_def bindE_Inr_iff)
  then have ne: "nodeVariables x \<noteq> {}" "nodeVariables y \<noteq> {}"
    and uv: "nodeVariables u = nodeVariables x \<union> nodeVariables y"
    by (auto simp: cutUnion_def split: if_splits)
  show ?thesis
  proof (cases "k < numNodeVariables u")
    case True
    with assms u show ?thesis by (simp add: diamondBody_def bindE_def)
  next
    case small: False
    with assms u have cs: "allCostsSet x" "allCostsSet y"
      by (auto simp: diamondBody_def bindE_def split: if_splits)
    obtain d1 i fresh where em: "emplace d u = (d1, i, fresh)" by (cases "emplace d u")
    show ?thesis
    proof (cases fresh)
      case False
      with emplace_cases[OF em] have "d1 = d" by simp
      with assms u small cs em False show ?thesis by (simp add: diamondBody_def bindE_def)
    next
      case True
      with emplace_cases[OF em] have d1: "d1 = d @ [u]" and i: "i = length d"
        and nw: "\<forall>z \<in> set d. nodeVariables z \<noteq> nodeVariables u" by simp_all
      from assms u small cs em True d1 i obtain a where
        a: "estimateUnionCutAreaCost e l u = Inr a" and a1: "a \<noteq> unsetCost"
        and dl: "estimateUnionCutDelayCost x y \<noteq> unsetCost"
        and d': "d' = d @ [u\<lparr>areaCost := a, delayCost := estimateUnionCutDelayCost x y,
                             powerCost := 0\<rparr>]"
        by (auto simp: diamondBody_def bindE_Inr_iff setAreaCost_def setDelayCost_def
                 setPowerCost_def split: if_splits)
      let ?ct = "u\<lparr>areaCost := a, delayCost := estimateUnionCutDelayCost x y, powerCost := 0\<rparr>"
      from a have "a = of_nat (card (unimplementedNodes e u))"
        by (auto simp: estimateUnionCutAreaCost_def split: if_splits)
      moreover have "unimplementedNodes e ?ct = unimplementedNodes e u"
        by (rule unimplementedNodes_cong) simp
      ultimately have "unionOf e k x y ?ct"
        using ne uv small cs a1 dl
        by (simp add: unionOf_def numNodeVariables_def allCostsSet_def unsetCost_def)
      with d' nw show ?thesis by auto
    qed
  qed
qed

lemma diamondOperation_sound:
  assumes "diamondOperation e l A B k = Inr R"
  shows "distinct (map nodeVariables R)
         \<and> (\<forall>ct \<in> set R. \<exists>x \<in> set A. \<exists>y \<in> set B. unionOf e k x y ct)"
proof -
  let ?I = "\<lambda>d. distinct (map nodeVariables d)
                \<and> (\<forall>ct \<in> set d. \<exists>x \<in> set A. \<exists>y \<in> set B. unionOf e k x y ct)"
  have inner: "?I r'" if "x \<in> set A" "?I r" "foldE (diamondBody e l k x) B r = Inr r'" for x r r'
  proof (rule foldE_invariant[OF that(3), where I = ?I])
    show "?I r" by (rule that(2))
  next
    fix y s s'
    assume y: "y \<in> set B" and s: "?I s" and b: "diamondBody e l k x y s = Inr s'"
    from diamondBody_cases[OF b] show "?I s'"
    proof
      assume "s' = s" with s show ?thesis by simp
    next
      assume "\<exists>ct. s' = s @ [ct]
            \<and> (\<forall>z \<in> set s. nodeVariables z \<noteq> nodeVariables ct) \<and> unionOf e k x y ct"
      then obtain ct where c: "s' = s @ [ct]"
        "\<forall>z \<in> set s. nodeVariables z \<noteq> nodeVariables ct" "unionOf e k x y ct" by blast
      from c(2) have "nodeVariables ct \<notin> nodeVariables ` set s" by force
      with s c(1) have "distinct (map nodeVariables s')" by simp
      moreover have "\<forall>ct \<in> set s'. \<exists>x \<in> set A. \<exists>y \<in> set B. unionOf e k x y ct"
        using s c(1,3) that(1) y by auto
      ultimately show ?thesis by simp
    qed
  qed
  show ?thesis
    by (rule foldE_invariant[OF assms[unfolded diamondOperation_def], where I = ?I])
       (simp, rule inner)
qed

section \<open>Case analysis of phi and of the loop body\<close>

lemma phiOperation_cases:
  assumes "phiOperation e l = Inr R"
  shows "nodeIsAnd (aigOf e) l \<and>
    (\<exists>own. getCutSet e l = Inr own \<and>
       ((own \<noteq> [] \<and> R = own) \<or>
        (own = [] \<and> (\<exists>an cs1 cs2 a1 a2.
            getAndNodeFromLiteral (aigOf e) l = Inr an
            \<and> childCutSet e (firstChild an) = Inr cs1
            \<and> childCutSet e (secondChild an) = Inr cs2
            \<and> generateAutoCut e (firstChild an) = Inr a1
            \<and> generateAutoCut e (secondChild an) = Inr a2
            \<and> diamondOperation e l (fst (emplace cs1 a1)) (fst (emplace cs2 a2)) (lutInputs e)
                = Inr R))))"
  using assms unfolding phiOperation_def Let_def
  by (auto simp: bindE_Inr_iff split: if_splits)

lemma absorbChild_cases:
  assumes "absorbChild e b ch = Inr e'"
  shows "e' = e \<or> (nodeIsAnd (aigOf e) ch
           \<and> e' = e\<lparr>implementationMap := (implementationMap e)(evenLiteral ch \<mapsto> False)\<rparr>)"
  using assms unfolding absorbChild_def evenLiteral_def
  by (auto simp: bindE_Inr_iff split: if_splits)

lemma findCutsBody_cases:
  assumes "findCutsBody srt e t = Inr (nxt, e')"
  shows "\<exists>an. getAndNodeFromLiteral (aigOf e) t = Inr an \<and>
    ((\<exists>child. nxt = Some child \<and> e' = e \<and> (child = firstChild an \<or> child = secondChild an)
        \<and> nodeIsAnd (aigOf e) child \<and> getCutSet e child = Inr [])
     \<or> (nxt = None \<and> (\<exists>R stored i e1 e2.
           phiOperation e t = Inr R
           \<and> stored = (if pruneBound e > 0
                        then sortAndChooseBestCuts srt R (pruneBound e) (mappingGoal e)
                        else sortCutSet srt R (mappingGoal e))
           \<and> vectorIndexFromAndLiteral e t = Inr i
           \<and> stored \<noteq> []
           \<and> e1 = e\<lparr>cutSetVector := (cutSetVector e)[i := stored]\<rparr>
           \<and> (if areaCost (stored ! 0) = 0
               then absorbChild (e1\<lparr>implementationMap := (implementationMap e)(t \<mapsto> True)\<rparr>)
                      (stored ! 0) (firstChild an) = Inr e2
                    \<and> absorbChild e2 (stored ! 0) (secondChild an) = Inr e'
               else e' = e1))))"
proof -
  from assms obtain an where an: "getAndNodeFromLiteral (aigOf e) t = Inr an"
    by (auto simp: findCutsBody_def bindE_Inr_iff)
  from assms an obtain r1 where r1: "childNotReady e (firstChild an) = Inr r1"
    by (auto simp: findCutsBody_def bindE_Inr_iff Let_def)
  show ?thesis
  proof (cases r1)
    case True
    with assms an r1 have "nxt = Some (firstChild an)" "e' = e"
      by (auto simp: findCutsBody_def bindE_def Let_def)
    moreover from r1 True have "nodeIsAnd (aigOf e) (firstChild an)"
        "getCutSet e (firstChild an) = Inr []"
      by (auto simp: childNotReady_def bindE_Inr_iff split: if_splits)
    ultimately show ?thesis using an by auto
  next
    case f1: False
    from assms an r1 f1 obtain r2 where r2: "childNotReady e (secondChild an) = Inr r2"
      by (auto simp: findCutsBody_def bindE_Inr_iff Let_def)
    show ?thesis
    proof (cases r2)
      case True
      with assms an r1 f1 r2 have "nxt = Some (secondChild an)" "e' = e"
        by (auto simp: findCutsBody_def bindE_def Let_def)
      moreover from r2 True have "nodeIsAnd (aigOf e) (secondChild an)"
          "getCutSet e (secondChild an) = Inr []"
        by (auto simp: childNotReady_def bindE_Inr_iff split: if_splits)
      ultimately show ?thesis using an by auto
    next
      case f2: False
      from assms an r1 f1 r2 f2 show ?thesis
        unfolding findCutsBody_def Let_def
        by (auto simp: bindE_Inr_iff split: if_splits)
    qed
  qed
qed

section \<open>The invariant of the stored cut sets\<close>

lemma getCutSet_cases:
  assumes "getCutSet e l = Inr cs"
  shows "nodeIsAnd (aigOf e) l
         \<and> unat (indexFromLiteral l - numInputs (aigOf e) - numLatches (aigOf e) - 1)
             < length (cutSetVector e)
         \<and> vectorIndexFromAndLiteral e l
             = Inr (unat (indexFromLiteral l - numInputs (aigOf e) - numLatches (aigOf e) - 1))
         \<and> cs = cutSetVector e
                  ! unat (indexFromLiteral l - numInputs (aigOf e) - numLatches (aigOf e) - 1)"
  using assms
  by (auto simp: getCutSet_def vectorIndexFromAndLiteral_def Let_def bindE_Inr_iff
           split: if_splits)

lemma getCutSet_mem: "getCutSet e l = Inr cs \<Longrightarrow> cs \<in> set (cutSetVector e)"
  by (auto dest!: getCutSet_cases)

lemma getBestCut_eq:
  "getBestCut e l = bindE (getCutSet e l) (\<lambda>cs. if cs = [] then Inl BestCutUndefined else Inr (cs ! 0))"
  by (auto simp: getBestCut_def getCutSet_def bindE_def split: sum.splits)

lemma getBestCut_cases:
  "getBestCut e l = Inr b \<Longrightarrow> \<exists>cs. getCutSet e l = Inr cs \<and> cs \<noteq> [] \<and> b = cs ! 0"
  by (auto simp: getBestCut_eq bindE_Inr_iff split: if_splits)

lemma childCutSet_cases:
  "childCutSet e l = Inr cs \<Longrightarrow>
     (nodeIsInput (aigOf e) l \<and> cs = []) \<or> (\<not> nodeIsInput (aigOf e) l \<and> getCutSet e l = Inr cs)"
  by (auto simp: childCutSet_def split: if_splits)

lemma generateAutoCut_cases:
  assumes "generateAutoCut e l = Inr a"
  shows "nodeVariables a = {indexFromLiteral l} \<and> powerCost a = 0
         \<and> ((nodeIsInput (aigOf e) l \<and> areaCost a = 0 \<and> delayCost a = 1)
             \<or> (\<not> nodeIsInput (aigOf e) l \<and> nodeIsAnd (aigOf e) l
                 \<and> (\<exists>b. getBestCut e l = Inr b \<and> areaCost a = areaCost b
                         \<and> delayCost a = 1 + delayCost b)))"
  using assms
  by (auto simp: generateAutoCut_def estimateAutoCutAreaCost_def estimateAutoCutDelayCost_def
                 bindE_Inr_iff split: if_splits)

lemma unionOf_cutInv:
  assumes u: "unionOf e k x y ct"
    and x: "\<forall>v \<in> nodeVariables x. v < 2 ^ 31" "1 \<le> delayCost x"
    and y: "\<forall>v \<in> nodeVariables y. v < 2 ^ 31" "1 \<le> delayCost y"
  shows "cutInv k ct"
proof -
  from u have lv: "nodeVariables ct = nodeVariables x \<union> nodeVariables y"
    and ne: "nodeVariables x \<noteq> {}" and k: "\<not> k < numNodeVariables ct"
    and cs: "allCostsSet ct" "powerCost ct = 0"
    and d: "delayCost ct = estimateUnionCutDelayCost x y"
    by (simp_all add: unionOf_def)
  from lv x(1) y(1) have small: "\<forall>v \<in> nodeVariables ct. v < 2 ^ 31" by auto
  from k have "unat (numNodeVariables ct) \<le> unat k" by (simp add: word_less_nat_alt)
  with numNodeVariables_small[OF small] have "card (nodeVariables ct) \<le> unat k" by simp
  moreover from d x(2) y(2) have "1 \<le> delayCost ct"
    by (simp add: estimateUnionCutDelayCost_def)
  ultimately show ?thesis using lv ne small cs by (simp add: cutInv_def)
qed

lemma autoCut_ok:
  assumes inv: "cutSetsInv e" and a: "generateAutoCut e l = Inr a"
  shows "(\<forall>v \<in> nodeVariables a. v < 2 ^ 31) \<and> 1 \<le> delayCost a"
proof -
  note c = generateAutoCut_cases[OF a]
  from c have lv: "\<forall>v \<in> nodeVariables a. v < 2 ^ 31"
    using indexFromLiteral_less[of l] by simp
  from c have "1 \<le> delayCost a"
  proof (elim conjE disjE exE)
    assume "delayCost a = 1" then show ?thesis by simp
  next
    fix b assume b: "getBestCut e l = Inr b" and d: "delayCost a = 1 + delayCost b"
    from getBestCut_cases[OF b] obtain cs where
      cs: "getCutSet e l = Inr cs" "cs \<noteq> []" "b = cs ! 0" by blast
    from cs have "b \<in> set cs" by simp
    with inv getCutSet_mem[OF cs(1)] have "cutInv (lutInputs e) b" by (auto simp: cutSetsInv_def)
    then have "delayCost b \<noteq> - 1" by (auto simp: cutInv_def allCostsSet_def unsetCost_def split: if_splits)
    with d show ?thesis by (simp add: one_plus_ge_one)
  qed
  with lv show ?thesis by simp
qed

lemma childSet_ok:
  assumes inv: "cutSetsInv e" and cs: "childCutSet e l = Inr cs"
    and a: "generateAutoCut e l = Inr a" and x: "x \<in> set (fst (emplace cs a))"
  shows "(\<forall>v \<in> nodeVariables x. v < 2 ^ 31) \<and> 1 \<le> delayCost x"
proof -
  from x set_fst_emplace[of cs a] have "x = a \<or> x \<in> set cs" by auto
  then show ?thesis
  proof
    assume "x = a" with autoCut_ok[OF inv a] show ?thesis by simp
  next
    assume xs: "x \<in> set cs"
    with childCutSet_cases[OF cs] have "getCutSet e l = Inr cs" by auto
    from getCutSet_mem[OF this] inv xs have "cutInv (lutInputs e) x" by (auto simp: cutSetsInv_def)
    then show ?thesis by (simp add: cutInv_def)
  qed
qed

lemma phiOperation_inv:
  assumes inv: "cutSetsInv e" and phi: "phiOperation e l = Inr R"
  shows "distinct (map nodeVariables R) \<and> (\<forall>ct \<in> set R. cutInv (lutInputs e) ct)"
proof -
  from phiOperation_cases[OF phi] obtain own where own: "getCutSet e l = Inr own"
    and alt: "(own \<noteq> [] \<and> R = own) \<or>
        (own = [] \<and> (\<exists>an cs1 cs2 a1 a2.
            getAndNodeFromLiteral (aigOf e) l = Inr an
            \<and> childCutSet e (firstChild an) = Inr cs1
            \<and> childCutSet e (secondChild an) = Inr cs2
            \<and> generateAutoCut e (firstChild an) = Inr a1
            \<and> generateAutoCut e (secondChild an) = Inr a2
            \<and> diamondOperation e l (fst (emplace cs1 a1)) (fst (emplace cs2 a2)) (lutInputs e)
                = Inr R))" by blast
  from alt show ?thesis
  proof (elim disjE conjE exE)
    assume "R = own"
    with getCutSet_mem[OF own] inv show ?thesis by (auto simp: cutSetsInv_def)
  next
    fix an :: AndNode and cs1 cs2 a1 a2
    assume c1: "childCutSet e (firstChild an) = Inr cs1"
      and c2: "childCutSet e (secondChild an) = Inr cs2"
      and g1: "generateAutoCut e (firstChild an) = Inr a1"
      and g2: "generateAutoCut e (secondChild an) = Inr a2"
      and d: "diamondOperation e l (fst (emplace cs1 a1)) (fst (emplace cs2 a2)) (lutInputs e)
                = Inr R"
    note s = diamondOperation_sound[OF d]
    have "cutInv (lutInputs e) ct" if "ct \<in> set R" for ct
    proof -
      from s that obtain x y where x: "x \<in> set (fst (emplace cs1 a1))"
        and y: "y \<in> set (fst (emplace cs2 a2))" and u: "unionOf e (lutInputs e) x y ct"
        by blast
      from childSet_ok[OF inv c1 g1 x] childSet_ok[OF inv c2 g2 y] u
      show ?thesis by (auto intro: unionOf_cutInv)
    qed
    with s show ?thesis by simp
  qed
qed


lemma findCutsBody_push:
  assumes "findCutsBody srt e t = Inr (Some child, e')"
  shows "e' = e \<and> nodeIsAnd (aigOf e) child \<and> getCutSet e child = Inr []
         \<and> (\<exists>an. getAndNodeFromLiteral (aigOf e) t = Inr an
                \<and> (child = firstChild an \<or> child = secondChild an))"
  using findCutsBody_cases[OF assms] by auto

lemma stored_contract:
  assumes sc: "stdSortContract srt"
    and st: "stored = (if c > 0 then sortAndChooseBestCuts srt R c goal
                        else sortCutSet srt R goal)"
  shows "set stored \<subseteq> set R"
    and "distinct (map nodeVariables R) \<longrightarrow> distinct (map nodeVariables stored)"
proof -
  from st show "set stored \<subseteq> set R"
    using set_sortAndChooseBestCuts[OF sc, of R c goal]
    by (auto simp: set_sortCutSet[OF sc])
  from st show "distinct (map nodeVariables R) \<longrightarrow> distinct (map nodeVariables stored)"
    by (auto simp: distinct_sortCutSet[OF sc] intro: distinct_sortAndChooseBestCuts[OF sc])
qed

lemma findCutsBody_pop:
  assumes b: "findCutsBody srt e t = Inr (None, e')"
  shows "\<exists>an R stored.
      getAndNodeFromLiteral (aigOf e) t = Inr an
      \<and> phiOperation e t = Inr R
      \<and> stored = (if pruneBound e > 0
                   then sortAndChooseBestCuts srt R (pruneBound e) (mappingGoal e)
                   else sortCutSet srt R (mappingGoal e))
      \<and> stored \<noteq> []
      \<and> unat (indexFromLiteral t - numInputs (aigOf e) - numLatches (aigOf e) - 1)
            < length (cutSetVector e)
      \<and> cutSetVector e' = (cutSetVector e)
            [unat (indexFromLiteral t - numInputs (aigOf e) - numLatches (aigOf e) - 1) := stored]
      \<and> (\<forall>l. implementationMap e' l = implementationMap e l
             \<or> (l = t \<and> areaCost (stored ! 0) = 0 \<and> implementationMap e' l = Some True)
             \<or> (implementationMap e' l = Some False
                 \<and> (l = evenLiteral (firstChild an) \<or> l = evenLiteral (secondChild an))))
      \<and> (areaCost (stored ! 0) = 0 \<longrightarrow> t \<noteq> evenLiteral (firstChild an)
            \<longrightarrow> t \<noteq> evenLiteral (secondChild an) \<longrightarrow> implementationMap e' t = Some True)
      \<and> (areaCost (stored ! 0) \<noteq> 0 \<longrightarrow> implementationMap e' = implementationMap e)"
proof -
  from findCutsBody_cases[OF b] obtain an R stored i e1 e2 where
    an: "getAndNodeFromLiteral (aigOf e) t = Inr an"
    and R: "phiOperation e t = Inr R"
    and st: "stored = (if pruneBound e > 0
                        then sortAndChooseBestCuts srt R (pruneBound e) (mappingGoal e)
                        else sortCutSet srt R (mappingGoal e))"
    and i: "vectorIndexFromAndLiteral e t = Inr i"
    and ne: "stored \<noteq> []"
    and e1: "e1 = e\<lparr>cutSetVector := (cutSetVector e)[i := stored]\<rparr>"
    and fin: "if areaCost (stored ! 0) = 0
               then absorbChild (e1\<lparr>implementationMap := (implementationMap e)(t \<mapsto> True)\<rparr>)
                      (stored ! 0) (firstChild an) = Inr e2
                    \<and> absorbChild e2 (stored ! 0) (secondChild an) = Inr e'
               else e' = e1"
    by auto
  from i have i': "i = unat (indexFromLiteral t - numInputs (aigOf e) - numLatches (aigOf e) - 1)"
    "i < length (cutSetVector e)"
    by (auto simp: vectorIndexFromAndLiteral_def Let_def split: if_splits)
  show ?thesis
  proof (cases "areaCost (stored ! 0) = 0")
    case False
    with fin e1 have "e' = e\<lparr>cutSetVector := (cutSetVector e)[i := stored]\<rparr>" by simp
    with an R st ne i' False show ?thesis by auto
  next
    case True
    let ?e1 = "e1\<lparr>implementationMap := (implementationMap e)(t \<mapsto> True)\<rparr>"
    from True fin have a1: "absorbChild ?e1 (stored ! 0) (firstChild an) = Inr e2"
      and a2: "absorbChild e2 (stored ! 0) (secondChild an) = Inr e'" by simp_all
    from absorbChild_keeps[OF a1] absorbChild_keeps[OF a2] e1
    have cv: "cutSetVector e' = (cutSetVector e)[i := stored]" by simp
    from absorbChild_cases[OF a1] have m2:
      "implementationMap e2 = (implementationMap e)(t \<mapsto> True)
       \<or> implementationMap e2 = (implementationMap e)(t \<mapsto> True, evenLiteral (firstChild an) \<mapsto> False)"
      by auto
    from absorbChild_cases[OF a2] have m3:
      "implementationMap e' = implementationMap e2
       \<or> implementationMap e' = (implementationMap e2)(evenLiteral (secondChild an) \<mapsto> False)"
      by auto
    have p1: "\<forall>l. implementationMap e' l = implementationMap e l
             \<or> (l = t \<and> areaCost (stored ! 0) = 0 \<and> implementationMap e' l = Some True)
             \<or> (implementationMap e' l = Some False
                 \<and> (l = evenLiteral (firstChild an) \<or> l = evenLiteral (secondChild an)))"
      using m2 m3 True by (elim disjE) (auto)
    have p2: "t \<noteq> evenLiteral (firstChild an) \<longrightarrow> t \<noteq> evenLiteral (secondChild an)
            \<longrightarrow> implementationMap e' t = Some True"
      using m2 m3 by (elim disjE) auto
    from an R st ne i' cv p1 p2 True show ?thesis by auto
  qed
qed

lemma set_list_update_cases: "x \<in> set (xs[i := y]) \<Longrightarrow> x = y \<or> x \<in> set xs"
  using set_update_subset_insert[of xs i y] by auto

lemma findCutsBody_inv:
  assumes sc: "stdSortContract srt"
    and inv: "cutSetsInv e" and b: "findCutsBody srt e t = Inr (nxt, e')"
  shows "cutSetsInv e'"
proof (cases nxt)
  case (Some child)
  with b findCutsBody_push[of srt e t child e'] inv show ?thesis by simp
next
  case None
  with b have b': "findCutsBody srt e t = Inr (None, e')" by simp
  from findCutsBody_pop[OF b'] obtain R stored where
    R: "phiOperation e t = Inr R"
    and st: "stored = (if pruneBound e > 0
                        then sortAndChooseBestCuts srt R (pruneBound e) (mappingGoal e)
                        else sortCutSet srt R (mappingGoal e))"
    and cv: "cutSetVector e' = (cutSetVector e)
            [unat (indexFromLiteral t - numInputs (aigOf e) - numLatches (aigOf e) - 1) := stored]"
    by blast
  note sub = stored_contract(1)[OF sc st] and dis = stored_contract(2)[OF sc st]
  from findCutsBody_keeps[OF b'] have k: "lutInputs e' = lutInputs e" by simp
  note p = phiOperation_inv[OF inv R]
  have "distinct (map nodeVariables cs) \<and> (\<forall>ct \<in> set cs. cutInv (lutInputs e) ct)"
    if "cs \<in> set (cutSetVector e')" for cs
  proof -
    from that cv have "cs = stored \<or> cs \<in> set (cutSetVector e)"
      by (auto dest: set_list_update_cases)
    then show ?thesis
    proof
      assume "cs = stored" with p sub dis show ?thesis by auto
    next
      assume "cs \<in> set (cutSetVector e)" with inv show ?thesis by (simp add: cutSetsInv_def)
    qed
  qed
  with k show ?thesis by (simp add: cutSetsInv_def)
qed

lemma newCutEngine_eq: "newCutEngine g goal k c = Inr e0 \<Longrightarrow> e0 = freshEngine g goal k c \<and> 2 \<le> k"
  by (auto simp: newCutEngine_def freshEngine_def split: if_splits)

lemma freshEngine_inv: "cutSetsInv (freshEngine g goal k c)"
  by (simp add: cutSetsInv_def freshEngine_def)

lemma reach_keeps:
  "reach srt e0 se \<Longrightarrow> aigOf (snd se) = aigOf e0 \<and> lutInputs (snd se) = lutInputs e0
       \<and> pruneBound (snd se) = pruneBound e0 \<and> mappingGoal (snd se) = mappingGoal e0
       \<and> length (cutSetVector (snd se)) = length (cutSetVector e0)"
  by (induction rule: reach.induct) (auto dest!: findCutsBody_keeps)

lemma reach_cutSetsInv:
  assumes sc: "stdSortContract srt" and r: "reach srt e0 se" and i: "cutSetsInv e0"
  shows "cutSetsInv (snd se)"
  using r i by (induction rule: reach.induct) (auto dest: findCutsBody_inv[OF sc])


lemma findCutsLoop_reach:
  "findCutsLoop srt n stack e = Some (Inr e') \<Longrightarrow> reach srt e0 (stack, e) \<Longrightarrow> reach srt e0 ([], e')"
proof (induction srt n stack e rule: findCutsLoop.induct)
  case (1 srt fuel e) then show ?case by simp
next
  case (2 srt t stack e) then show ?case by simp
next
  case (3 srt fuel t stack e)
  from "3.prems"(1) obtain nxt e1 where b: "findCutsBody srt e t = Inr (nxt, e1)"
    by (auto split: sum.splits)
  show ?case
  proof (cases nxt)
    case None
    with "3.prems" b have l: "findCutsLoop srt fuel stack e1 = Some (Inr e')" by simp
    from "3.prems"(2) b None have "reach srt e0 (stack, e1)" by (auto intro: reach.popped)
    from "3.IH"(1)[OF b refl None l this] show ?thesis .
  next
    case (Some child)
    with "3.prems" b have l: "findCutsLoop srt fuel (child # t # stack) e1 = Some (Inr e')" by simp
    from "3.prems"(2) b Some have "reach srt e0 (child # t # stack, e1)"
      by (auto intro: reach.pushed)
    from "3.IH"(2)[OF b refl Some l this] show ?thesis .
  qed
qed

lemma findCuts_reach:
  assumes "findCuts srt n e l = Some (Inr e')" and "reach srt e0 ([], e)"
  shows "reach srt e0 ([], e')"
proof (cases "getCutSet e l = Inr []")
  case True
  with assms(1) have a: "nodeIsAnd (aigOf e) l" and lp: "findCutsLoop srt n [l] e = Some (Inr e')"
    by (auto simp: findCuts_def split: if_splits option.splits sum.splits)
  from assms(2) a True have "reach srt e0 ([l], e)" by (rule reach.called)
  from findCutsLoop_reach[OF lp this] show ?thesis .
next
  case False
  with assms(1) have "e' = e"
    by (auto simp: findCuts_def split: if_splits option.splits sum.splits)
  with assms(2) show ?thesis by simp
qed

lemma mapOutput_reach:
  assumes "mapOutput srt n l tm = Some (Inr tm')" and "reach srt e0 ([], cutEngine tm)"
  shows "reach srt e0 ([], cutEngine tm')"
proof (cases "nodeIsAnd (aigOf (cutEngine tm)) l \<and> notCovered (coverMap tm) (evenLiteral l)")
  case True
  with assms(1) obtain e' b where
    fc: "findCuts srt n (cutEngine tm) l = Some (Inr e')"
    and cl: "coverLoop
               (tm\<lparr>cutEngine := e',
                   coverMap := (coverMap tm)(evenLiteral l \<mapsto> True),
                   mappingAreaCost := mappingAreaCost tm + 1,
                   mappingDelayCost := (if mappingDelayCost tm < delayCost b then delayCost b
                                        else mappingDelayCost tm)\<rparr>)
               (andLiteralsOf (aigOf e') b) = Inr tm'"
    by (auto simp: mapOutput_def evenLiteral_def Let_def bindE_def
             split: option.splits sum.splits if_splits)
  from coverLoop_extends[OF cl] have "cutEngine tm' = e'" by simp
  with findCuts_reach[OF fc assms(2)] show ?thesis by simp
next
  case False
  with assms(1) have "cutEngine tm' = cutEngine tm"
    by (auto simp: mapOutput_def evenLiteral_def Let_def split: if_splits)
  with assms(2) show ?thesis by simp
qed

lemma runOutputs_reach:
  "runOutputs srt n ls tm = Some (Inr tm') \<Longrightarrow> reach srt e0 ([], cutEngine tm)
     \<Longrightarrow> reach srt e0 ([], cutEngine tm')"
  by (induction ls arbitrary: tm)
     (auto split: option.splits sum.splits dest: mapOutput_reach)

lemma run_reach:
  "run srt n (newTechMapper e0) = Some (Inr tm') \<Longrightarrow> reach srt e0 ([], cutEngine tm')"
  unfolding run_def
  by (erule runOutputs_reach) (simp add: newTechMapper_def reach.constructed)

lemma engineAfter_eq: "\<exists>e. r = Some (Inr e) \<Longrightarrow> r = Some (Inr (engineAfter e0 r))"
  by (auto simp: engineAfter_def)

section \<open>Leaves lie below the node\<close>

lemma children_below:
  assumes ck: "andNodesChecked g" and an: "getAndNodeFromLiteral g t = Inr an"
  shows "indexFromLiteral (firstChild an) < indexFromLiteral t
         \<and> indexFromLiteral (secondChild an) < indexFromLiteral t"
proof -
  let ?i = "unat (indexFromLiteral t - numInputs g - numLatches g - 1)"
  from an have i: "?i < length (andVector g)" and a: "an = andVector g ! ?i"
    by (auto simp: getAndNodeFromLiteral_def Let_def split: if_splits)
  from ck i a have "\<not> literalFromAndVectorIndex g ?i \<le> firstChild an"
    "\<not> literalFromAndVectorIndex g ?i \<le> secondChild an"
    by (auto simp: andNodesChecked_def)
  then have "firstChild an < literalFromIndex (indexFromLiteral t)"
    "secondChild an < literalFromIndex (indexFromLiteral t)"
    by (simp_all add: slot_literal not_le)
  then show ?thesis by (simp add: child_index_less)
qed

lemma childSet_below:
  assumes lb: "leavesBelow e" and cs: "childCutSet e l = Inr cs"
    and a: "generateAutoCut e l = Inr a" and x: "x \<in> set (fst (emplace cs a))"
  shows "\<forall>v \<in> nodeVariables x. v \<le> indexFromLiteral l"
proof -
  from x set_fst_emplace[of cs a] have "x = a \<or> x \<in> set cs" by auto
  then show ?thesis
  proof
    assume "x = a" with generateAutoCut_cases[OF a] show ?thesis by simp
  next
    assume xs: "x \<in> set cs"
    with childCutSet_cases[OF cs] have "getCutSet e l = Inr cs" by auto
    with lb xs have "\<forall>v \<in> nodeVariables x. v < indexFromLiteral l"
      by (auto simp: leavesBelow_def)
    then show ?thesis by auto
  qed
qed

lemma phiOperation_below:
  assumes ck: "andNodesChecked (aigOf e)" and lb: "leavesBelow e"
    and phi: "phiOperation e t = Inr R"
  shows "\<forall>ct \<in> set R. \<forall>v \<in> nodeVariables ct. v < indexFromLiteral t"
proof -
  from phiOperation_cases[OF phi] obtain own where own: "getCutSet e t = Inr own"
    and alt: "(own \<noteq> [] \<and> R = own) \<or>
        (own = [] \<and> (\<exists>an cs1 cs2 a1 a2.
            getAndNodeFromLiteral (aigOf e) t = Inr an
            \<and> childCutSet e (firstChild an) = Inr cs1
            \<and> childCutSet e (secondChild an) = Inr cs2
            \<and> generateAutoCut e (firstChild an) = Inr a1
            \<and> generateAutoCut e (secondChild an) = Inr a2
            \<and> diamondOperation e t (fst (emplace cs1 a1)) (fst (emplace cs2 a2)) (lutInputs e)
                = Inr R))" by blast
  from alt show ?thesis
  proof (elim disjE conjE exE)
    assume "R = own"
    with own lb show ?thesis by (auto simp: leavesBelow_def)
  next
    fix an :: AndNode and cs1 cs2 a1 a2
    assume an: "getAndNodeFromLiteral (aigOf e) t = Inr an"
      and c1: "childCutSet e (firstChild an) = Inr cs1"
      and c2: "childCutSet e (secondChild an) = Inr cs2"
      and g1: "generateAutoCut e (firstChild an) = Inr a1"
      and g2: "generateAutoCut e (secondChild an) = Inr a2"
      and d: "diamondOperation e t (fst (emplace cs1 a1)) (fst (emplace cs2 a2)) (lutInputs e)
                = Inr R"
    note s = diamondOperation_sound[OF d]
    note cb = children_below[OF ck an]
    show ?thesis
    proof (intro ballI)
      fix ct v assume ct: "ct \<in> set R" and v: "v \<in> nodeVariables ct"
      from s ct obtain x y where x: "x \<in> set (fst (emplace cs1 a1))"
        and y: "y \<in> set (fst (emplace cs2 a2))" and u: "unionOf e (lutInputs e) x y ct"
        by blast
      from u v have "v \<in> nodeVariables x \<or> v \<in> nodeVariables y" by (auto simp: unionOf_def)
      with childSet_below[OF lb c1 g1 x] childSet_below[OF lb c2 g2 y]
      have "v \<le> indexFromLiteral (firstChild an) \<or> v \<le> indexFromLiteral (secondChild an)"
        by auto
      with cb show "v < indexFromLiteral t" by auto
    qed
  qed
qed

lemma findCutsBody_below:
  assumes sc: "stdSortContract srt"
    and ck: "andNodesChecked (aigOf e)" and lb: "leavesBelow e"
    and b: "findCutsBody srt e t = Inr (nxt, e')"
  shows "leavesBelow e'"
proof (cases nxt)
  case (Some child)
  with b findCutsBody_push[of srt e t child e'] lb show ?thesis by simp
next
  case None
  with b have b': "findCutsBody srt e t = Inr (None, e')" by simp
  let ?i = "\<lambda>l. unat (indexFromLiteral l - numInputs (aigOf e) - numLatches (aigOf e) - 1)"
  from findCutsBody_pop[OF b'] obtain R stored where
    R: "phiOperation e t = Inr R"
    and st: "stored = (if pruneBound e > 0
                        then sortAndChooseBestCuts srt R (pruneBound e) (mappingGoal e)
                        else sortCutSet srt R (mappingGoal e))"
    and cv: "cutSetVector e' = (cutSetVector e)[?i t := stored]"
    by blast
  note sub = stored_contract(1)[OF sc st]
  from findCutsBody_keeps[OF b'] have k: "aigOf e' = aigOf e"
    "length (cutSetVector e') = length (cutSetVector e)" by simp_all
  note p = phiOperation_below[OF ck lb R]
  show ?thesis
    unfolding leavesBelow_def
  proof (intro allI impI)
    fix l cs assume g: "getCutSet e' l = Inr cs"
    note c = getCutSet_cases[OF g]
    from c k have il: "?i l < length (cutSetVector e)" and a: "nodeIsAnd (aigOf e) l"
      and cs: "cs = cutSetVector e' ! ?i l" by simp_all
    show "\<forall>ct \<in> set cs. \<forall>v \<in> nodeVariables ct. v < indexFromLiteral l"
    proof (cases "?i l = ?i t")
      case True
      then have "indexFromLiteral l = indexFromLiteral t" by (rule slot_index_inj)
      moreover from True cs cv il have "cs = stored" by simp
      ultimately show ?thesis using p sub by auto
    next
      case False
      with cs cv have "cs = cutSetVector e ! ?i l" by simp
      with a il have "getCutSet e l = Inr cs"
        by (simp add: getCutSet_def vectorIndexFromAndLiteral_def bindE_def Let_def)
      with lb show ?thesis by (auto simp: leavesBelow_def)
    qed
  qed
qed

lemma freshEngine_below: "leavesBelow (freshEngine g goal k c)"
  by (auto simp: leavesBelow_def freshEngine_def dest!: getCutSet_cases)

lemma reach_leavesBelow:
  assumes sc: "stdSortContract srt" and r: "reach srt e0 se"
    and ck: "andNodesChecked (aigOf e0)" and lb: "leavesBelow e0"
  shows "leavesBelow (snd se)"
  using r ck lb
proof (induction rule: reach.induct)
  case constructed then show ?case by simp
next
  case (called e l) then show ?case by simp
next
  case (pushed t stack e child e')
  from reach_keeps[OF pushed.hyps(1)] pushed.prems have "andNodesChecked (aigOf e)" by simp
  from findCutsBody_below[OF sc this _ pushed.hyps(2)] pushed show ?case by simp
next
  case (popped t stack e e')
  from reach_keeps[OF popped.hyps(1)] popped.prems have "andNodesChecked (aigOf e)" by simp
  from findCutsBody_below[OF sc this _ popped.hyps(2)] popped show ?case by simp
next
  case (thrown stack e) then show ?case by simp
qed

lemma aigFits_sharedDesign: "aigFits sharedDesign" by (simp add: aigFits_def sharedDesign_def)
lemma all_below_Suc: "(\<forall>i < Suc n. P i) \<longleftrightarrow> P n \<and> (\<forall>i < n. P i)"
  by (auto simp: less_Suc_eq)
lemma andNodesChecked_sharedDesign: "andNodesChecked sharedDesign"
  unfolding andNodesChecked_def sharedDesign_def
  by (simp add: numeral_3_eq_3 all_below_Suc literalFromAndVectorIndex_def literalFromIndex_def)

lemma sharedDesign_after_8:
  "findCuts insertionSort 3 (freshEngine sharedDesign MinimizeArea 2 0) 8
     = Some (Inr (engineAfter (freshEngine sharedDesign MinimizeArea 2 0)
                    (findCuts insertionSort 3 (freshEngine sharedDesign MinimizeArea 2 0) 8)))"
proof -
  let ?init = "freshEngine sharedDesign MinimizeArea 2 0"
  have "case findCuts insertionSort 3 ?init 8 of Some (Inr e) \<Rightarrow> True | _ \<Rightarrow> False" by code_simp
  then have "\<exists>e. findCuts insertionSort 3 ?init 8 = Some (Inr e)" by (auto split: option.splits sum.splits)
  then show ?thesis by (rule engineAfter_eq)
qed

section \<open>Literals, variables and polarity\<close>

lemma unat_index: "unat (indexFromLiteral l) = unat l div 2"
  by (simp add: indexFromLiteral_def drop_bit_eq_div unat_div)

lemma unat_literal: "unat (literalFromIndex v) = (2 * unat v) mod 2 ^ 32"
  by (simp add: literalFromIndex_def push_bit_eq_mult unat_word_ariths mult.commute)

lemma odd_unat: "l mod 2 = 1 \<longleftrightarrow> unat l mod 2 = 1" for l :: uint
proof -
  have "unat (l mod 2) = unat l mod 2" by (simp add: unat_mod)
  then show ?thesis by (metis unat_1 word_unat_eq_iff)
qed

lemma literal_even: "literalFromIndex v mod 2 \<noteq> 1"
proof -
  have "(2 * unat v) mod 2 ^ 32 mod 2 = 0"
    by (simp add: mod_mod_cancel)
  then show ?thesis by (simp add: odd_unat unat_literal)
qed

lemma literal_of_index: "literalFromIndex (indexFromLiteral l) = evenLiteral l"
proof -
  have lt: "unat l < 2 ^ 32" using unsigned_less[of l] by simp
  have "unat (literalFromIndex (indexFromLiteral l)) = 2 * (unat l div 2)"
    using lt by (simp add: unat_literal unat_index)
  moreover have "unat (evenLiteral l) = 2 * (unat l div 2)"
  proof (cases "l mod 2 = 1")
    case True
    then have o: "unat l mod 2 = 1" by (simp add: odd_unat)
    then have "1 \<le> unat l" by presburger
    then have "unat (l - 1) = unat l - 1" by (simp add: unat_sub word_le_nat_alt)
    with True o show ?thesis by (simp add: evenLiteral_def) presburger
  next
    case False
    then have "unat l mod 2 \<noteq> 1" by (simp add: odd_unat)
    with False show ?thesis by (simp add: evenLiteral_def) presburger
  qed
  ultimately show ?thesis by (simp add: word_unat_eq_iff)
qed

lemma index_evenLiteral: "indexFromLiteral (evenLiteral l) = indexFromLiteral l"
proof -
  have lt: "unat l < 2 ^ 32" using unsigned_less[of l] by simp
  have "unat (indexFromLiteral (literalFromIndex (indexFromLiteral l))) = unat l div 2"
    using lt by (simp add: unat_index[of "literalFromIndex (indexFromLiteral l)"] unat_literal unat_index)
  then show ?thesis by (simp add: literal_of_index word_unat_eq_iff unat_index)
qed

lemma evenLiteral_even: "evenLiteral l mod 2 \<noteq> 1"
  using literal_even[of "indexFromLiteral l"] by (simp add: literal_of_index)

lemma nodeIsAnd_index:
  "nodeIsAnd g l \<longleftrightarrow> 1 < l \<and> indexFromLiteral l \<le> numInputs g + numLatches g + numAnds g
                          \<and> numInputs g + numLatches g < indexFromLiteral l"
  by (auto simp: nodeIsAnd_def not_le)

lemma nodeIsAnd_evenLiteral: "nodeIsAnd g l \<Longrightarrow> nodeIsAnd g (evenLiteral l)"
proof -
  assume a: "nodeIsAnd g l"
  then have "1 < l" by (simp add: nodeIsAnd_index)
  then have l2: "2 \<le> unat l" by (simp add: word_less_nat_alt)
  have lt: "unat l < 2 ^ 32" using unsigned_less[of l] by simp
  have "unat (evenLiteral l) = 2 * (unat l div 2)"
    using literal_of_index[of l] unat_literal[of "indexFromLiteral l"] lt
    by (simp add: unat_index)
  with l2 have "1 < unat (evenLiteral l)" by presburger
  then have "1 < evenLiteral l" by (simp add: word_less_nat_alt)
  with a show ?thesis by (simp add: nodeIsAnd_index index_evenLiteral)
qed

lemma getCutSet_same_slot:
  "indexFromLiteral l = indexFromLiteral l' \<Longrightarrow> nodeIsAnd (aigOf e) l \<Longrightarrow> nodeIsAnd (aigOf e) l'
     \<Longrightarrow> getCutSet e l = getCutSet e l'"
  by (simp add: getCutSet_def vectorIndexFromAndLiteral_def)

lemma getCutSet_evenLiteral:
  "nodeIsAnd (aigOf e) l \<Longrightarrow> getCutSet e (evenLiteral l) = getCutSet e l"
  by (rule getCutSet_same_slot) (simp_all add: index_evenLiteral nodeIsAnd_evenLiteral)

lemma evenLiteral_odd: "l mod 2 = 1 \<Longrightarrow> evenLiteral l = l - 1"
  by (simp add: evenLiteral_def)

lemma evenLiteral_id: "l mod 2 \<noteq> 1 \<Longrightarrow> evenLiteral l = l"
  by (simp add: evenLiteral_def)

section \<open>The implementation map of a new engine\<close>

lemma fold_emplace_false:
  "fold (\<lambda>i m. if f i \<in> dom m then m else m(f i \<mapsto> False)) xs m l
     = (if l \<in> dom m then m l else if l \<in> f ` set xs then Some False else None)"
proof (induction xs arbitrary: m)
  case Nil then show ?case by (auto simp: domIff)
next
  case (Cons x xs)
  let ?F = "\<lambda>i m. if f i \<in> dom m then m else m(f i \<mapsto> False)"
  let ?m = "if f x \<in> dom m then m else m(f x \<mapsto> False)"
  have "fold ?F (x # xs) m l = fold ?F xs ?m l" by simp
  also have "\<dots> = (if l \<in> dom ?m then ?m l
                    else if l \<in> f ` set xs then Some False else None)"
    by (rule Cons.IH)
  also have "\<dots> = (if l \<in> dom m then m l
                    else if l \<in> f ` set (x # xs) then Some False else None)"
    by (auto simp: domIff)
  finally show ?case .
qed

lemma initImplementationMap_apply:
  "initImplementationMap g l =
     (if l \<in> (\<lambda>i. literalFromIndex (of_nat i)) `
              {unat (indexFromLiteral (getFirstAndLiteral g))
                 ..< unat (indexFromLiteral (getFirstAndLiteral g) + numAnds g)}
      then Some False else None)"
  by (simp add: initImplementationMap_def Let_def fold_emplace_false)

lemma initImplementationMap_odd: "l mod 2 = 1 \<Longrightarrow> initImplementationMap g l = None"
  using literal_even by (auto simp: initImplementationMap_apply)

lemma initImplementationMap_even:
  assumes fits: "aigFits g" and a: "nodeIsAnd g l" and ev: "l mod 2 \<noteq> 1"
  shows "initImplementationMap g l = Some False"
proof -
  let ?I = "unat (numInputs g)" and ?L = "unat (numLatches g)" and ?A = "unat (numAnds g)"
  from fits have f: "?I + ?L + ?A < 2 ^ 31" by (simp add: aigFits_def)
  have il: "unat (numInputs g + numLatches g) = ?I + ?L"
    using f by (simp add: unat_word_ariths)
  have ila: "unat (numInputs g + numLatches g + numAnds g) = ?I + ?L + ?A"
    using f by (simp add: unat_word_ariths(1)[of "numInputs g + numLatches g"] il)
  from a have rng: "unat (indexFromLiteral l) \<le> ?I + ?L + ?A" "?I + ?L < unat (indexFromLiteral l)"
    using il ila by (simp_all add: nodeIsAnd_index word_le_nat_alt word_less_nat_alt)
  then have f1: "?I + ?L + 1 < 2 ^ 31" using f by arith
  have il1: "unat (numInputs g + numLatches g + 1) = ?I + ?L + 1"
    using f1 by (simp add: unat_word_ariths(1)[of "numInputs g + numLatches g"] il)
  have "(2::nat) ^ 32 = 2 * 2 ^ 31" by simp
  with f1 have "2 * (?I + ?L + 1) < (2::nat) ^ 32" by (simp only: mult_less_cancel1) simp
  then have "(2 * (?I + ?L + 1)) mod 2 ^ 32 = 2 * (?I + ?L + 1)" by (rule mod_less)
  then have "unat (literalFromIndex (numInputs g + numLatches g + 1)) = 2 * (?I + ?L + 1)"
    by (simp only: unat_literal il1)
  then have first: "unat (indexFromLiteral (getFirstAndLiteral g)) = ?I + ?L + 1"
    by (simp add: getFirstAndLiteral_def unat_index)
  have last: "unat (indexFromLiteral (getFirstAndLiteral g) + numAnds g) = ?I + ?L + 1 + ?A"
    using f by (simp add: unat_word_ariths(1)[of "indexFromLiteral (getFirstAndLiteral g)"] first)
  from rng first last have "unat (indexFromLiteral l)
      \<in> {unat (indexFromLiteral (getFirstAndLiteral g))
           ..< unat (indexFromLiteral (getFirstAndLiteral g) + numAnds g)}" by simp
  moreover have "literalFromIndex (of_nat (unat (indexFromLiteral l))) = l"
    using ev by (simp add: literal_of_index evenLiteral_id)
  ultimately have "l \<in> (\<lambda>i. literalFromIndex (of_nat i)) `
              {unat (indexFromLiteral (getFirstAndLiteral g))
                 ..< unat (indexFromLiteral (getFirstAndLiteral g) + numAnds g)}"
    by (metis (no_types, lifting) image_eqI)
  then show ?thesis by (simp add: initImplementationMap_apply)
qed

lemma freshEngine_mapInv: "aigFits g \<Longrightarrow> mapInv (freshEngine g goal k c)"
  by (auto simp: mapInv_def freshEngine_def initImplementationMap_odd initImplementationMap_even)

section \<open>The invariants of the implementation map and of the stack\<close>

lemma getCutSet_update:
  assumes "cutSetVector e' = (cutSetVector e)[j := s]" and "aigOf e' = aigOf e"
  shows "getCutSet e' l =
    (case getCutSet e l of
       Inl err \<Rightarrow> Inl err
     | Inr cs \<Rightarrow>
         if unat (indexFromLiteral l - numInputs (aigOf e) - numLatches (aigOf e) - 1) = j
         then Inr s else Inr cs)"
  using assms
  by (auto simp: getCutSet_def vectorIndexFromAndLiteral_def bindE_def Let_def)

lemma word_pred_neq: "l - 1 \<noteq> l" for l :: uint
  by simp

lemma findCutsBody_pop_mapInv:
  assumes mi: "mapInv e" and si: "stackInv e (t # stack)"
    and b: "findCutsBody srt e t = Inr (None, e')"
  shows "mapInv e' \<and> stackInv e' stack"
proof -
  let ?g = "aigOf e"
  let ?i = "\<lambda>l. unat (indexFromLiteral l - numInputs ?g - numLatches ?g - 1)"
  from findCutsBody_pop[OF b] obtain an :: AndNode and stored where
    ne: "stored \<noteq> []"
    and cv: "cutSetVector e' = (cutSetVector e)[?i t := stored]"
    and mp: "\<forall>l. implementationMap e' l = implementationMap e l
             \<or> (l = t \<and> areaCost (stored ! 0) = 0 \<and> implementationMap e' l = Some True)
             \<or> (implementationMap e' l = Some False
                 \<and> (l = evenLiteral (firstChild an) \<or> l = evenLiteral (secondChild an)))"
    by blast
  from findCutsBody_keeps[OF b] have g: "aigOf e' = ?g" by simp
  note gu = getCutSet_update[OF cv g]
  from si have ta: "nodeIsAnd ?g t" and te: "getCutSet e t = Inr []"
    by (simp_all add: stackInv_def)
  from mi have j1: "\<And>l. nodeIsAnd ?g l \<Longrightarrow> getCutSet e l = Inr [] \<Longrightarrow>
                       implementationMap e l = (if l mod 2 = 1 then None else Some False)"
    and j2: "\<And>l. nodeIsAnd ?g l \<Longrightarrow> l mod 2 = 1 \<Longrightarrow> implementationMap e l = Some True \<Longrightarrow>
                       implementationMap e (l - 1) = Some False"
    by (auto simp: mapInv_def)
  have empty_old: "getCutSet e l = Inr [] \<and> ?i l \<noteq> ?i t" if "getCutSet e' l = Inr []" for l
    using that ne by (auto simp: gu split: sum.splits if_splits)
  have k1: "implementationMap e' l = (if l mod 2 = 1 then None else Some False)"
    if a: "nodeIsAnd ?g l" and c: "getCutSet e' l = Inr []" for l
  proof -
    from empty_old[OF c] have o: "getCutSet e l = Inr []" and d: "?i l \<noteq> ?i t" by simp_all
    from d have lt: "l \<noteq> t" by auto
    from mp have "implementationMap e' l = implementationMap e l
             \<or> (l = t \<and> areaCost (stored ! 0) = 0 \<and> implementationMap e' l = Some True)
             \<or> (implementationMap e' l = Some False
                 \<and> (l = evenLiteral (firstChild an) \<or> l = evenLiteral (secondChild an)))"
      by blast
    then show ?thesis
    proof (elim disjE)
      assume "implementationMap e' l = implementationMap e l"
      with j1[OF a o] show ?thesis by simp
    next
      assume "l = t \<and> areaCost (stored ! 0) = 0 \<and> implementationMap e' l = Some True"
      with lt show ?thesis by simp
    next
      assume h: "implementationMap e' l = Some False
                 \<and> (l = evenLiteral (firstChild an) \<or> l = evenLiteral (secondChild an))"
      then have "l mod 2 \<noteq> 1" using evenLiteral_even by auto
      with h show ?thesis by simp
    qed
  qed
  have k2: "implementationMap e' (l - 1) = Some False"
    if a: "nodeIsAnd ?g l" and od: "l mod 2 = 1" and m: "implementationMap e' l = Some True" for l
  proof -
    from od have el: "evenLiteral l = l - 1" by (rule evenLiteral_odd)
    from nodeIsAnd_evenLiteral[OF a] el have a1: "nodeIsAnd ?g (l - 1)" by simp
    from getCutSet_evenLiteral[OF a] el have cs1: "getCutSet e (l - 1) = getCutSet e l" by simp
    have old: "implementationMap e (l - 1) = Some False"
    proof (cases "l = t")
      case True
      with te cs1 have "getCutSet e (l - 1) = Inr []" by simp
      from j1[OF a1 this] evenLiteral_even[of l] el show ?thesis by simp
    next
      case False
      from mp have "implementationMap e' l = implementationMap e l
             \<or> (l = t \<and> areaCost (stored ! 0) = 0 \<and> implementationMap e' l = Some True)
             \<or> (implementationMap e' l = Some False
                 \<and> (l = evenLiteral (firstChild an) \<or> l = evenLiteral (secondChild an)))"
        by blast
      with False m have "implementationMap e l = Some True" by auto
      from j2[OF a od this] show ?thesis .
    qed
    from mp have "implementationMap e' (l - 1) = implementationMap e (l - 1)
             \<or> (l - 1 = t \<and> areaCost (stored ! 0) = 0 \<and> implementationMap e' (l - 1) = Some True)
             \<or> (implementationMap e' (l - 1) = Some False
                 \<and> (l - 1 = evenLiteral (firstChild an) \<or> l - 1 = evenLiteral (secondChild an)))"
      by blast
    then show ?thesis
    proof (elim disjE)
      assume "implementationMap e' (l - 1) = implementationMap e (l - 1)"
      with old show ?thesis by simp
    next
      assume h: "l - 1 = t \<and> areaCost (stored ! 0) = 0
                 \<and> implementationMap e' (l - 1) = Some True"
      with te cs1 have le: "getCutSet e l = Inr []" by simp
      from h have "l \<noteq> t" using word_pred_neq[of l] by auto
      from mp have "implementationMap e' l = implementationMap e l
             \<or> (l = t \<and> areaCost (stored ! 0) = 0 \<and> implementationMap e' l = Some True)
             \<or> (implementationMap e' l = Some False
                 \<and> (l = evenLiteral (firstChild an) \<or> l = evenLiteral (secondChild an)))"
        by blast
      with \<open>l \<noteq> t\<close> m have "implementationMap e l = Some True" by auto
      with j1[OF a le] od show ?thesis by simp
    next
      assume "implementationMap e' (l - 1) = Some False
                 \<and> (l - 1 = evenLiteral (firstChild an) \<or> l - 1 = evenLiteral (secondChild an))"
      then show ?thesis by simp
    qed
  qed
  from k1 k2 g have "mapInv e'" by (simp add: mapInv_def)
  moreover have "stackInv e' stack"
  proof -
    from si have srt: "sorted_wrt (\<lambda>a b. indexFromLiteral a < indexFromLiteral b) stack"
      and above: "\<forall>s \<in> set stack. indexFromLiteral t < indexFromLiteral s"
      and els: "\<forall>s \<in> set stack. nodeIsAnd ?g s \<and> getCutSet e s = Inr []"
      by (auto simp: stackInv_def)
    have "getCutSet e' s = Inr []" if "s \<in> set stack" for s
    proof -
      from above that have "indexFromLiteral s \<noteq> indexFromLiteral t" by auto
      then have "?i s \<noteq> ?i t" using slot_index_inj by blast
      with els that show ?thesis by (simp add: gu)
    qed
    with els srt g show ?thesis by (simp add: stackInv_def)
  qed
  ultimately show ?thesis by simp
qed

lemma findCutsBody_push_stackInv:
  assumes ck: "andNodesChecked (aigOf e)" and si: "stackInv e (t # stack)"
    and b: "findCutsBody srt e t = Inr (Some child, e')"
  shows "e' = e \<and> stackInv e' (child # t # stack)"
proof -
  from findCutsBody_push[OF b] obtain an where e: "e' = e"
    and ca: "nodeIsAnd (aigOf e) child" and ce: "getCutSet e child = Inr []"
    and an: "getAndNodeFromLiteral (aigOf e) t = Inr an"
    and ch: "child = firstChild an \<or> child = secondChild an" by blast
  from children_below[OF ck an] ch have lt: "indexFromLiteral child < indexFromLiteral t" by auto
  from si have "\<forall>s \<in> set stack. indexFromLiteral t < indexFromLiteral s"
    by (simp add: stackInv_def)
  with lt have "\<forall>s \<in> set (t # stack). indexFromLiteral child < indexFromLiteral s" by auto
  with si ca ce e show ?thesis by (simp add: stackInv_def)
qed

lemma reach_mapInv:
  "reach srt e0 se \<Longrightarrow> andNodesChecked (aigOf e0) \<Longrightarrow> mapInv e0
     \<Longrightarrow> mapInv (snd se) \<and> stackInv (snd se) (fst se)"
proof (induction rule: reach.induct)
  case constructed then show ?case by (simp add: stackInv_def)
next
  case (called e l) then show ?case by (simp add: stackInv_def)
next
  case (pushed t stack e child e')
  from reach_keeps[OF pushed.hyps(1)] pushed.prems have ck: "andNodesChecked (aigOf e)" by simp
  from pushed have mi: "mapInv e" and si: "stackInv e (t # stack)" by simp_all
  from findCutsBody_push_stackInv[OF ck si pushed.hyps(2)] mi show ?case by auto
next
  case (popped t stack e e')
  from popped have "mapInv e" "stackInv e (t # stack)" by simp_all
  from findCutsBody_pop_mapInv[OF this popped.hyps(2)] show ?case by simp
next
  case (thrown stack e) then show ?case by (simp add: stackInv_def)
qed

lemma bodyEngine_eq:
  "\<exists>e'. findCutsBody srt e t = Inr (nxt, e') \<Longrightarrow> findCutsBody srt e t = Inr (nxt, bodyEngine srt e t)"
  by (auto simp: bodyEngine_def)

lemma odd_mark_counted:
  assumes a: "nodeIsAnd (aigOf e) l" and od: "l mod 2 = 1"
    and f: "implementationMap e (l - 1) = Some False"
    and u: "indexFromLiteral l \<in> nodeVariables u"
  shows "l - 1 \<in> unimplementedNodes e u"
proof -
  from od have li: "literalFromIndex (indexFromLiteral l) = l - 1"
    by (simp add: literal_of_index evenLiteral_odd)
  from nodeIsAnd_evenLiteral[OF a] od have a1: "nodeIsAnd (aigOf e) (l - 1)"
    by (simp add: evenLiteral_odd)
  let ?P = "\<lambda>v. nodeIsAnd (aigOf e) (literalFromIndex v)
                       \<and> implementationMap e (literalFromIndex v) = Some False"
  from a1 f li have "?P (indexFromLiteral l)" by simp
  with u have "indexFromLiteral l \<in> Set.filter ?P (nodeVariables u)" by simp
  then have "literalFromIndex (indexFromLiteral l) \<in> literalFromIndex ` Set.filter ?P (nodeVariables u)"
    by (rule imageI)
  then show ?thesis by (simp only: li unimplementedNodes_def)
qed

lemma odd_mark_kept:
  assumes od: "l mod 2 = 1" and m: "implementationMap e l = Some True"
    and b: "findCutsBody srt e t = Inr (nxt, e')"
  shows "implementationMap e' l = Some True"
proof (cases nxt)
  case (Some child)
  with b have "findCutsBody srt e t = Inr (Some child, e')" by simp
  from findCutsBody_push[OF this] have "e' = e" by simp
  with m show ?thesis by simp
next
  case None
  with b have b': "findCutsBody srt e t = Inr (None, e')" by simp
  from findCutsBody_pop[OF b'] obtain an :: AndNode and stored :: CutSet where
    "\<forall>l. implementationMap e' l = implementationMap e l
           \<or> (l = t \<and> areaCost (stored ! 0) = 0 \<and> implementationMap e' l = Some True)
           \<or> (implementationMap e' l = Some False
               \<and> (l = evenLiteral (firstChild an) \<or> l = evenLiteral (secondChild an)))"
    by blast
  then have d: "implementationMap e' l = implementationMap e l
           \<or> (l = t \<and> areaCost (stored ! 0) = 0 \<and> implementationMap e' l = Some True)
           \<or> (implementationMap e' l = Some False
               \<and> (l = evenLiteral (firstChild an) \<or> l = evenLiteral (secondChild an)))"
    by (rule spec)
  have "l \<noteq> evenLiteral (firstChild an)" "l \<noteq> evenLiteral (secondChild an)"
    using od evenLiteral_even by blast+
  with d m show ?thesis by auto
qed

lemma odd_mark_new:
  assumes ck: "andNodesChecked (aigOf e)" and mi: "mapInv e" and si: "stackInv e (t # rest)"
    and b: "findCutsBody srt e t = Inr (None, e')"
    and bc: "getBestCut e' t = Inr bst" and ar: "areaCost bst = 0"
  shows "implementationMap e' t = Some True
         \<and> (t mod 2 = 1 \<longrightarrow>
               implementationMap e t = None
               \<and> implementationMap e (t - 1) = Some False
               \<and> implementationMap e' (t - 1) = Some False)"
proof -
  let ?g = "aigOf e"
  let ?i = "\<lambda>l. unat (indexFromLiteral l - numInputs (aigOf e) - numLatches (aigOf e) - 1)"
  from mi have j1: "\<And>l. nodeIsAnd ?g l \<Longrightarrow> getCutSet e l = Inr [] \<Longrightarrow>
                       implementationMap e l = (if l mod 2 = 1 then None else Some False)"
    by (simp add: mapInv_def)
  from si have ta: "nodeIsAnd ?g t" and te: "getCutSet e t = Inr []"
    by (simp_all add: stackInv_def)
  from findCutsBody_keeps[OF b] have g': "aigOf e' = aigOf e" by simp
  from findCutsBody_pop_mapInv[OF mi si b] have mi': "mapInv e'" by simp
  from findCutsBody_pop[OF b] have m: "implementationMap e' t = Some True"
  proof (elim exE conjE)
    fix an :: AndNode and R stored :: CutSet
    assume an: "getAndNodeFromLiteral (aigOf e) t = Inr an"
      and cv: "cutSetVector e' = (cutSetVector e)[?i t := stored]"
      and p2: "areaCost (stored ! 0) = 0 \<longrightarrow> t \<noteq> evenLiteral (firstChild an)
            \<longrightarrow> t \<noteq> evenLiteral (secondChild an) \<longrightarrow> implementationMap e' t = Some True"
    from getCutSet_update[OF cv g', of t] te have "getCutSet e' t = Inr stored" by simp
    moreover from getBestCut_cases[OF bc] obtain cs where
      "getCutSet e' t = Inr cs" "bst = cs ! 0" by blast
    ultimately have "bst = stored ! 0" by simp
    with ar have a0: "areaCost (stored ! 0) = 0" by simp
    from children_below[OF ck an]
    have "indexFromLiteral (firstChild an) < indexFromLiteral t"
      "indexFromLiteral (secondChild an) < indexFromLiteral t" by simp_all
    then have "indexFromLiteral (evenLiteral (firstChild an)) \<noteq> indexFromLiteral t"
      "indexFromLiteral (evenLiteral (secondChild an)) \<noteq> indexFromLiteral t"
      by (simp_all add: index_evenLiteral)
    then have "t \<noteq> evenLiteral (firstChild an)" "t \<noteq> evenLiteral (secondChild an)" by blast+
    with p2 a0 show ?thesis by simp
  qed
  have "implementationMap e t = None
        \<and> implementationMap e (t - 1) = Some False
        \<and> implementationMap e' (t - 1) = Some False" if od: "t mod 2 = 1"
  proof -
    from j1[OF ta te] od have n: "implementationMap e t = None" by simp
    from od have el: "evenLiteral t = t - 1" by (rule evenLiteral_odd)
    from nodeIsAnd_evenLiteral[OF ta] el have a1: "nodeIsAnd ?g (t - 1)" by simp
    from getCutSet_evenLiteral[OF ta] el te have "getCutSet e (t - 1) = Inr []" by simp
    from j1[OF a1 this] evenLiteral_even[of t] el
    have f: "implementationMap e (t - 1) = Some False" by simp
    from mi' ta g' od m have "implementationMap e' (t - 1) = Some False"
      by (simp add: mapInv_def)
    with n f show ?thesis by simp
  qed
  with m show ?thesis by simp
qed

lemma andNodesChecked_code [code]:
  "andNodesChecked g \<longleftrightarrow>
     (\<forall>i \<in> set [0 ..< length (andVector g)].
        \<not> firstChild (andVector g ! i) < secondChild (andVector g ! i)
        \<and> \<not> (literalFromAndVectorIndex g i \<le> firstChild (andVector g ! i)
              \<or> literalFromAndVectorIndex g i \<le> secondChild (andVector g ! i))
        \<and> \<not> (firstChild (andVector g ! i) < 2 \<or> secondChild (andVector g ! i) < 2))"
  by (auto simp: andNodesChecked_def)

lemma negatedDesign_ok: "andNodesChecked negatedDesign \<and> aigFits negatedDesign"
proof
  show "andNodesChecked negatedDesign" by code_simp
  show "aigFits negatedDesign" by (simp add: aigFits_def negatedDesign_def)
qed

lemma negated_steps:
  "findCutsBody insertionSort negatedInit 8 = Inr (Some 7, negatedPushed)
   \<and> findCutsBody insertionSort negatedPushed 7 = Inr (None, negatedMarked)
   \<and> findCutsBody insertionSort negatedMarked 8 = Inr (None, negatedDone)"
proof -
  have "case findCutsBody insertionSort negatedInit 8 of Inr (Some ch, e') \<Rightarrow> ch = 7 | _ \<Rightarrow> False"
    by code_simp
  then have "\<exists>e'. findCutsBody insertionSort negatedInit 8 = Inr (Some 7, e')"
    by (auto split: sum.splits option.splits prod.splits)
  then have a: "findCutsBody insertionSort negatedInit 8 = Inr (Some 7, negatedPushed)"
    unfolding negatedPushed_def by (rule bodyEngine_eq)
  have "case findCutsBody insertionSort negatedPushed 7 of Inr (None, e') \<Rightarrow> True | _ \<Rightarrow> False"
    by code_simp
  then have "\<exists>e'. findCutsBody insertionSort negatedPushed 7 = Inr (None, e')"
    by (auto split: sum.splits option.splits prod.splits)
  then have b: "findCutsBody insertionSort negatedPushed 7 = Inr (None, negatedMarked)"
    unfolding negatedMarked_def by (rule bodyEngine_eq)
  have "case findCutsBody insertionSort negatedMarked 8 of Inr (None, e') \<Rightarrow> True | _ \<Rightarrow> False"
    by code_simp
  then have "\<exists>e'. findCutsBody insertionSort negatedMarked 8 = Inr (None, e')"
    by (auto split: sum.splits option.splits prod.splits)
  then have c: "findCutsBody insertionSort negatedMarked 8 = Inr (None, negatedDone)"
    unfolding negatedDone_def by (rule bodyEngine_eq)
  from a b c show ?thesis by simp
qed

lemma negated_reach:
  "reach insertionSort negatedInit ([7, 8], negatedPushed) \<and> reach insertionSort negatedInit ([8], negatedMarked)"
proof -
  have a: "nodeIsAnd (aigOf negatedInit) 8" by code_simp
  have c: "getCutSet negatedInit 8 = Inr []" by code_simp
  from reach.called[OF reach.constructed a c] have r1: "reach insertionSort negatedInit ([8], negatedInit)" .
  from reach.pushed[OF r1] negated_steps
  have r2: "reach insertionSort negatedInit ([7, 8], negatedPushed)" by simp
  from reach.popped[OF r2] negated_steps
  have "reach insertionSort negatedInit ([8], negatedMarked)" by simp
  with r2 show ?thesis by simp
qed

section \<open>The diamond operation against its specification\<close>

lemma foldE_append:
  "foldE f (xs @ ys) s = (case foldE f xs s of Inl err \<Rightarrow> Inl err | Inr s' \<Rightarrow> foldE f ys s')"
  by (induction xs arbitrary: s) (auto split: sum.splits)

lemma foldE_map: "foldE f (map h xs) s = foldE (\<lambda>x. f (h x)) xs s"
  by (induction xs arbitrary: s) (auto split: sum.splits)

lemma foldE_product:
  "foldE (\<lambda>x. foldE (f x) ys) xs s = foldE (\<lambda>(x, y). f x y) (List.product xs ys) s"
proof (induction xs arbitrary: s)
  case Nil then show ?case by simp
next
  case (Cons x xs)
  have "foldE (\<lambda>(x, y). f x y) (map (Pair x) ys) s = foldE (f x) ys s"
    by (simp add: foldE_map)
  with Cons show ?case by (simp add: foldE_append split: sum.splits)
qed

lemma literalFromIndex_inj:
  assumes "v < 2 ^ 31" "w < 2 ^ 31" "literalFromIndex v = literalFromIndex w"
  shows "v = w"
proof -
  from assms(1,2) have "unat v < 2 ^ 31" "unat w < 2 ^ 31" by (simp_all add: word_less_nat_alt)
  then have "(2 * unat v) mod 2 ^ 32 = 2 * unat v" "(2 * unat w) mod 2 ^ 32 = 2 * unat w"
    by simp_all
  with assms(3) have "2 * unat v = 2 * unat w"
    using unat_literal[of v] unat_literal[of w] by simp
  then show ?thesis by (simp add: word_unat_eq_iff)
qed

lemma card_unimplementedNodes:
  assumes "\<forall>v \<in> nodeVariables u. v < 2 ^ 31"
  shows "card (unimplementedNodes e u)
         = card (Set.filter
                   (\<lambda>v. nodeIsAnd (aigOf e) (literalFromIndex v)
                        \<and> implementationMap e (literalFromIndex v) = Some False)
                   (nodeVariables u))"
  unfolding unimplementedNodes_def
proof (rule card_image)
  show "inj_on literalFromIndex (Set.filter
                   (\<lambda>v. nodeIsAnd (aigOf e) (literalFromIndex v)
                        \<and> implementationMap e (literalFromIndex v) = Some False)
                   (nodeVariables u))"
    using assms by (auto intro!: inj_onI literalFromIndex_inj)
qed

lemma area_not_sentinel:
  fixes S :: "uint set"
  assumes "\<forall>v \<in> S. v < 2 ^ 31" and "T \<subseteq> S"
  shows "(of_nat (card T) :: uint) \<noteq> unsetCost"
proof -
  from assms have "\<forall>v \<in> T. v < 2 ^ 31" by auto
  from card_small_leaves[OF this] have c: "card T \<le> 2 ^ 31" .
  then have u: "unat (of_nat (card T) :: uint) = card T" by (simp add: unat_of_nat)
  have m: "unat (unsetCost :: uint) = 2 ^ 32 - 1"
    unfolding unsetCost_def by (simp add: unsigned_minus_1_eq_mask mask_eq_exp_minus_1)
  show ?thesis
  proof
    assume "(of_nat (card T) :: uint) = unsetCost"
    with u m have "card T = 2 ^ 32 - 1" by simp
    with c show False by simp
  qed
qed

lemma diamondBody_good:
  assumes gx: "diamondInput e x" and gy: "diamondInput e y"
  shows "diamondBody e a k x y d =
     Inr (if card (nodeVariables x \<union> nodeVariables y) \<le> unat k
          then (if \<exists>z \<in> set d. nodeVariables z = nodeVariables x \<union> nodeVariables y then d
                else d @ [unionCandidate e x y])
          else d)"
proof -
  let ?L = "nodeVariables x \<union> nodeVariables y"
  let ?u = "\<lparr>nodeVariables = ?L, areaCost = unsetCost, delayCost = unsetCost,
             powerCost = unsetCost\<rparr>"
  from gx gy have u: "cutUnion x y = Inr ?u" by (simp add: cutUnion_def diamondInput_def)
  from gx gy have small: "\<forall>v \<in> nodeVariables ?u. v < 2 ^ 31" by (auto simp: diamondInput_def)
  from numNodeVariables_small[OF small] have nn: "unat (numNodeVariables ?u) = card ?L" by simp
  have kk: "k < numNodeVariables ?u \<longleftrightarrow> \<not> card ?L \<le> unat k"
    using nn by (auto simp: word_less_nat_alt)
  from gx gy have cs: "allCostsSet x" "allCostsSet y" by (simp_all add: diamondInput_def)
  show ?thesis
  proof (cases "card ?L \<le> unat k")
    case False
    with u kk show ?thesis by (simp add: diamondBody_def bindE_def)
  next
    case le: True
    show ?thesis
    proof (cases "\<exists>z \<in> set d. nodeVariables z = ?L")
      case True
      then have "findCut ?u d \<noteq> None" by (auto simp: findCut_None_iff)
      then obtain i where "findCut ?u d = Some i" by auto
      then have "emplace d ?u = (d, i, False)" by (simp add: emplace_def)
      with u kk le cs True show ?thesis by (simp add: diamondBody_def bindE_def)
    next
      case False
      then have "findCut ?u d = None" by (auto simp: findCut_None_iff)
      then have em: "emplace d ?u = (d @ [?u], length d, True)" by (simp add: emplace_def)
      from gx gy have "\<not> (\<exists>v \<in> nodeVariables ?u.
           nodeIsAnd (aigOf e) (literalFromIndex v)
           \<and> implementationMap e (literalFromIndex v) = None)"
        by (auto simp: diamondInput_def)
      then have est: "estimateUnionCutAreaCost e a ?u = Inr (of_nat (card (unimplementedNodes e ?u)))"
        by (simp add: estimateUnionCutAreaCost_def)
      have ar: "(of_nat (card (unimplementedNodes e ?u)) :: uint)
                  = areaCost (unionCandidate e x y)"
        by (simp add: card_unimplementedNodes[OF small] unionCandidate_def)
      have "Set.filter (\<lambda>v. nodeIsAnd (aigOf e) (literalFromIndex v)
                        \<and> implementationMap e (literalFromIndex v) = Some False) ?L \<subseteq> ?L"
        by auto
      from area_not_sentinel[OF _ this] small
      have ns: "areaCost (unionCandidate e x y) \<noteq> unsetCost"
        by (simp add: unionCandidate_def)
      from cs have dn: "estimateUnionCutDelayCost x y \<noteq> unsetCost"
        by (auto simp: estimateUnionCutDelayCost_def allCostsSet_def split: if_splits)
      have dm: "estimateUnionCutDelayCost x y = max (delayCost x) (delayCost y)"
        by (auto simp: estimateUnionCutDelayCost_def max_def)
      have z: "(0::uint) \<noteq> unsetCost" by (simp add: unsetCost_def)
      have "diamondBody e a k x y d =
              Inr (d @ [?u\<lparr>areaCost := areaCost (unionCandidate e x y),
                            delayCost := estimateUnionCutDelayCost x y, powerCost := 0\<rparr>])"
        using u kk le cs em est ar ns dn z
        by (simp add: diamondBody_def bindE_def setAreaCost_def setDelayCost_def
                      setPowerCost_def)
      moreover have "?u\<lparr>areaCost := areaCost (unionCandidate e x y),
                         delayCost := estimateUnionCutDelayCost x y, powerCost := 0\<rparr>
                     = unionCandidate e x y"
        by (simp add: unionCandidate_def dm)
      ultimately show ?thesis using le False by simp
    qed
  qed
qed

lemma foldE_diamondBody_good:
  assumes "\<forall>(x, y) \<in> set ps. diamondInput e x \<and> diamondInput e y"
  shows "foldE (\<lambda>(x, y). diamondBody e a k x y) ps d =
     Inr (mergeByLeaves d
            (map (\<lambda>(x, y). unionCandidate e x y)
               (filter (\<lambda>(x, y). card (nodeVariables x \<union> nodeVariables y) \<le> unat k) ps)))"
  using assms
proof (induction ps arbitrary: d)
  case Nil then show ?case by simp
next
  case (Cons p ps)
  obtain x y where p: "p = (x, y)" by (cases p)
  from Cons.prems p have g: "diamondInput e x" "diamondInput e y"
    and rest: "\<forall>(x, y) \<in> set ps. diamondInput e x \<and> diamondInput e y" by auto
  have nv: "nodeVariables (unionCandidate e x y) = nodeVariables x \<union> nodeVariables y"
    by (simp add: unionCandidate_def)
  show ?case
    by (simp add: p diamondBody_good[OF g] Cons.IH[OF rest] nv)
qed

lemma mergeByLeaves_leaves:
  "nodeVariables ` set (mergeByLeaves acc cts) = nodeVariables ` (set acc \<union> set cts)"
  by (induction acc cts rule: mergeByLeaves.induct) auto

lemma mergeByLeaves_distinct:
  "distinct (map nodeVariables acc) \<Longrightarrow> distinct (map nodeVariables (mergeByLeaves acc cts))"
  by (induction acc cts rule: mergeByLeaves.induct) auto

lemma mergeByLeaves_subset: "set (mergeByLeaves acc cts) \<subseteq> set acc \<union> set cts"
  by (induction acc cts rule: mergeByLeaves.induct) auto

section \<open>The insertion sort meets the contract; runs without ties\<close>

lemma mset_sortInsert: "mset (sortInsert lt x ys) = add_mset x (mset ys)"
  by (induction ys) auto

lemma mset_insertionSort: "mset (insertionSort lt xs) = mset xs"
  unfolding insertionSort_def by (induction xs) (auto simp: mset_sortInsert)

lemma set_sortInsert: "set (sortInsert lt x ys) = insert x (set ys)"
  by (induction ys) auto

lemma sorted_sortInsert:
  assumes asym: "\<And>a b. lt a b \<Longrightarrow> \<not> lt b a"
    and nt: "\<And>a b c. \<not> lt b a \<Longrightarrow> \<not> lt c b \<Longrightarrow> \<not> lt c a"
    and s: "sorted_wrt (\<lambda>a b. \<not> lt b a) ys"
  shows "sorted_wrt (\<lambda>a b. \<not> lt b a) (sortInsert lt x ys)"
  using s
proof (induction ys)
  case Nil then show ?case by simp
next
  case (Cons y ys)
  show ?case
  proof (cases "lt y x")
    case True
    with Cons asym[OF True] show ?thesis by (auto simp: set_sortInsert)
  next
    case False
    with Cons.prems nt[OF False] show ?thesis by auto
  qed
qed

lemma sorted_insertionSort:
  assumes asym: "\<And>a b. lt a b \<Longrightarrow> \<not> lt b a"
    and nt: "\<And>a b c. \<not> lt b a \<Longrightarrow> \<not> lt c b \<Longrightarrow> \<not> lt c a"
  shows "sorted_wrt (\<lambda>a b. \<not> lt b a) (insertionSort lt xs)"
proof (induction xs)
  case Nil then show ?case by (simp add: insertionSort_def)
next
  case (Cons x xs)
  have "insertionSort lt (x # xs) = sortInsert lt x (insertionSort lt xs)"
    by (simp add: insertionSort_def)
  with sorted_sortInsert[of lt, OF asym nt Cons] show ?case by simp
qed

lemma cutAreaComparision_asym: "cutAreaComparision a b \<Longrightarrow> \<not> cutAreaComparision b a"
  by (auto simp: cutAreaComparision_def split: if_splits)

lemma cutAreaComparision_nt:
  "\<not> cutAreaComparision b a \<Longrightarrow> \<not> cutAreaComparision c b \<Longrightarrow> \<not> cutAreaComparision c a"
  by (auto simp: cutAreaComparision_def split: if_splits)

lemma cutDelayComparision_asym: "cutDelayComparision a b \<Longrightarrow> \<not> cutDelayComparision b a"
  by (auto simp: cutDelayComparision_def split: if_splits)

lemma cutDelayComparision_nt:
  "\<not> cutDelayComparision b a \<Longrightarrow> \<not> cutDelayComparision c b \<Longrightarrow> \<not> cutDelayComparision c a"
  by (auto simp: cutDelayComparision_def split: if_splits)

lemma insertionSort_contract: "stdSortContract insertionSort"
  unfolding stdSortContract_def sortsBy_def
  using sorted_insertionSort[of cutAreaComparision, OF cutAreaComparision_asym cutAreaComparision_nt]
    sorted_insertionSort[of cutDelayComparision, OF cutDelayComparision_asym cutDelayComparision_nt]
  by (simp add: mset_insertionSort)

lemma sorted_perm_unique:
  "sorted_wrt lt ys \<Longrightarrow> mset zs = mset ys \<Longrightarrow> sorted_wrt (\<lambda>a b. \<not> lt b a) zs \<Longrightarrow> zs = ys"
proof (induction ys arbitrary: zs)
  case Nil then show ?case by simp
next
  case (Cons y ys)
  from Cons.prems(2) obtain z zs' where zs: "zs = z # zs'" by (cases zs) auto
  have zy: "z = y"
  proof (rule ccontr)
    assume ne: "z \<noteq> y"
    from Cons.prems(2) have "set zs = set (y # ys)" by (rule mset_eq_setD)
    with zs ne have yz: "y \<in> set zs'" and zin: "z \<in> set ys" by auto
    from Cons.prems(3) zs yz have "\<not> lt y z" by simp
    moreover from Cons.prems(1) zin have "lt y z" by simp
    ultimately show False by simp
  qed
  with Cons.prems zs have "sorted_wrt lt ys" "mset zs' = mset ys"
    "sorted_wrt (\<lambda>a b. \<not> lt b a) zs'" by simp_all
  from Cons.IH[OF this] zs zy show ?case by simp
qed

lemma goalComparator_cases:
  "goalComparator goal = cutAreaComparision \<or> goalComparator goal = cutDelayComparision"
  by (cases goal) (simp_all add: goalComparator_def)

lemma contract_determined:
  assumes sc: "stdSortContract srt"
    and st: "sorted_wrt (goalComparator goal) (insertionSort (goalComparator goal) xs)"
  shows "srt (goalComparator goal) xs = insertionSort (goalComparator goal) xs"
proof -
  note c = goalComparator_cases[of goal]
  have "mset (srt (goalComparator goal) xs) = mset (insertionSort (goalComparator goal) xs)"
    using contract_mset[OF sc c] by (simp add: mset_insertionSort)
  from sorted_perm_unique[OF st this contract_sorted[OF sc c]] show ?thesis .
qed

lemma sortCutSet_goalComparator: "sortCutSet srt cs goal = srt (goalComparator goal) cs"
  by (cases goal) (simp_all add: sortCutSet_def goalComparator_def)

lemma sortAndChooseBestCuts_goalComparator:
  "sortAndChooseBestCuts srt cs c goal =
     (if length (srt (goalComparator goal) cs) > unat c
      then take (unat c) (srt (goalComparator goal) cs) else srt (goalComparator goal) cs)"
  by (cases goal) (simp_all add: sortAndChooseBestCuts_def goalComparator_def Let_def)

lemma findCutsBody_determined:
  assumes sc: "stdSortContract srt" and d: "sortDetermined e t"
  shows "findCutsBody srt e t = findCutsBody insertionSort e t"
proof (cases "phiOperation e t")
  case (Inl err)
  then show ?thesis by (auto simp: findCutsBody_def bindE_def Let_def split: sum.splits)
next
  case (Inr R)
  with d have "sorted_wrt (goalComparator (mappingGoal e))
                 (insertionSort (goalComparator (mappingGoal e)) R)"
    by (simp add: sortDetermined_def)
  from contract_determined[OF sc this]
  have "sortCutSet srt R (mappingGoal e) = sortCutSet insertionSort R (mappingGoal e)"
    "sortAndChooseBestCuts srt R (pruneBound e) (mappingGoal e)
       = sortAndChooseBestCuts insertionSort R (pruneBound e) (mappingGoal e)"
    by (simp_all add: sortCutSet_goalComparator sortAndChooseBestCuts_goalComparator)
  with Inr show ?thesis by (auto simp: findCutsBody_def bindE_def Let_def split: sum.splits)
qed

lemma findCutsLoop_determined:
  assumes sc: "stdSortContract srt"
  shows "loopDetermined fuel stack e \<Longrightarrow>
         findCutsLoop srt fuel stack e = findCutsLoop insertionSort fuel stack e"
proof (induction fuel stack e rule: loopDetermined.induct)
  case (1 fuel e) then show ?case by simp
next
  case (2 t stack e) then show ?case by simp
next
  case (3 fuel t stack e)
  from "3.prems" have d: "sortDetermined e t" by simp
  note b = findCutsBody_determined[OF sc d]
  show ?case
  proof (cases "findCutsBody insertionSort e t")
    case (Inl err)
    with b show ?thesis by simp
  next
    case (Inr p)
    obtain nxt e' where p: "p = (nxt, e')" by (cases p)
    show ?thesis
    proof (cases nxt)
      case None
      with "3.prems" Inr p have "loopDetermined fuel stack e'" by simp
      from "3.IH"(1)[OF Inr p[symmetric] None this] b Inr p None show ?thesis by simp
    next
      case (Some child)
      with "3.prems" Inr p have "loopDetermined fuel (child # t # stack) e'" by simp
      from "3.IH"(2)[OF Inr p[symmetric] Some this] b Inr p Some show ?thesis by simp
    qed
  qed
qed

lemma findCuts_determined:
  assumes sc: "stdSortContract srt" and d: "loopDetermined fuel [l] e"
  shows "findCuts srt fuel e l = findCuts insertionSort fuel e l"
  unfolding findCuts_def findCutsLoop_determined[OF sc d] by (rule refl)

lemma mapOutput_determined:
  assumes sc: "stdSortContract srt" and d: "loopDetermined fuel [l] (cutEngine tm)"
  shows "mapOutput srt fuel l tm = mapOutput insertionSort fuel l tm"
  unfolding mapOutput_def findCuts_determined[OF sc d] by (rule refl)

lemma runOutputs_determined:
  assumes sc: "stdSortContract srt"
  shows "outputsDetermined fuel ls tm \<Longrightarrow>
         runOutputs srt fuel ls tm = runOutputs insertionSort fuel ls tm"
proof (induction ls arbitrary: tm)
  case Nil then show ?case by simp
next
  case (Cons l ls)
  from Cons.prems have d: "loopDetermined fuel [l] (cutEngine tm)" by simp
  note m = mapOutput_determined[OF sc d]
  show ?case
  proof (cases "mapOutput insertionSort fuel l tm")
    case None with m show ?thesis by simp
  next
    case (Some r)
    show ?thesis
    proof (cases r)
      case (Inl err) with Some m show ?thesis by simp
    next
      case (Inr tm')
      with Cons.prems Some have "outputsDetermined fuel ls tm'" by simp
      from Cons.IH[OF this] Some Inr m show ?thesis by simp
    qed
  qed
qed

lemma shared_determined:
  "outputsDetermined 3 (outputLiteralVector sharedDesign)
     (newTechMapper (freshEngine sharedDesign MinimizeArea 2 0))"
  by code_simp

lemma shared_insertionSort:
  "reported (mapDesign insertionSort 3 sharedDesign MinimizeArea 2 0) = Some (2, 1)"
  by code_simp

lemma shared_any_sort:
  assumes sc: "stdSortContract srt"
  shows "reported (mapDesign srt 3 sharedDesign MinimizeArea 2 0) = Some (2, 1)"
proof -
  let ?init = "freshEngine sharedDesign MinimizeArea 2 0"
  have n: "newCutEngine sharedDesign MinimizeArea 2 0 = Inr ?init"
    by (simp add: newCutEngine_def freshEngine_def)
  have g: "aigOf ?init = sharedDesign" by (simp add: freshEngine_def)
  from runOutputs_determined[OF sc shared_determined]
  have "run srt 3 (newTechMapper ?init) = run insertionSort 3 (newTechMapper ?init)"
    by (simp add: run_def newTechMapper_def g)
  with n have "mapDesign srt 3 sharedDesign MinimizeArea 2 0
                 = mapDesign insertionSort 3 sharedDesign MinimizeArea 2 0"
    by (simp add: mapDesign_def)
  with shared_insertionSort show ?thesis by simp
qed

lemma shared_findCuts_any_sort:
  assumes sc: "stdSortContract srt"
  shows "findCuts srt 3 (freshEngine sharedDesign MinimizeArea 2 0) 8
           = findCuts insertionSort 3 (freshEngine sharedDesign MinimizeArea 2 0) 8"
proof -
  have "loopDetermined 3 [8] (freshEngine sharedDesign MinimizeArea 2 0)" by code_simp
  with sc show ?thesis by (rule findCuts_determined)
qed



section \<open>The cuts of an engine state are inputs of the diamond operation\<close>

lemma freshEngine_entries: "aigFits g \<Longrightarrow> entriesInv (freshEngine g goal k c)"
  by (simp add: entriesInv_def freshEngine_def initImplementationMap_even)

lemma findCutsBody_entries:
  assumes inv: "entriesInv e" and b: "findCutsBody srt e t = Inr (nxt, e')"
  shows "entriesInv e'"
proof (cases nxt)
  case (Some child)
  with b findCutsBody_push[of srt e t child e'] inv show ?thesis by simp
next
  case None
  with b have b': "findCutsBody srt e t = Inr (None, e')" by simp
  from findCutsBody_keeps[OF b'] have g: "aigOf e' = aigOf e" by simp
  from findCutsBody_pop[OF b'] obtain an :: AndNode and stored :: CutSet where
    mp: "\<forall>l. implementationMap e' l = implementationMap e l
           \<or> (l = t \<and> areaCost (stored ! 0) = 0 \<and> implementationMap e' l = Some True)
           \<or> (implementationMap e' l = Some False
               \<and> (l = evenLiteral (firstChild an) \<or> l = evenLiteral (secondChild an)))"
    by blast
  show ?thesis
    unfolding entriesInv_def
  proof (intro allI impI)
    fix l assume a: "nodeIsAnd (aigOf e') l \<and> l mod 2 \<noteq> 1"
    with inv g have "implementationMap e l \<noteq> None" by (simp add: entriesInv_def)
    with mp[rule_format, of l] show "implementationMap e' l \<noteq> None" by auto
  qed
qed

lemma reach_entries:
  "reach srt e0 se \<Longrightarrow> entriesInv e0 \<Longrightarrow> entriesInv (snd se)"
  by (induction rule: reach.induct) (auto dest: findCutsBody_entries)

lemma engineCut_diamondInput:
  assumes inv: "cutSetsInv e" and en: "entriesInv e"
    and ec: "engineCut e ct" and costs: "allCostsSet ct"
  shows "diamondInput e ct"
proof -
  have lv: "nodeVariables ct \<noteq> {} \<and> (\<forall>v \<in> nodeVariables ct. v < 2 ^ 31)"
  proof (cases "\<exists>cs \<in> set (cutSetVector e). ct \<in> set cs")
    case True
    with inv have "cutInv (lutInputs e) ct" by (auto simp: cutSetsInv_def)
    then show ?thesis by (simp add: cutInv_def)
  next
    case False
    with ec obtain l where "generateAutoCut e l = Inr ct" by (auto simp: engineCut_def)
    from generateAutoCut_cases[OF this] have "nodeVariables ct = {indexFromLiteral l}" by simp
    then show ?thesis using indexFromLiteral_less[of l] by simp
  qed
  have "implementationMap e (literalFromIndex v) \<noteq> None"
    if "nodeIsAnd (aigOf e) (literalFromIndex v)" for v
    using en that literal_even[of v] by (simp add: entriesInv_def)
  with lv costs show ?thesis by (simp add: diamondInput_def)
qed

lemma phi_arguments_engineCut:
  assumes cs: "childCutSet e l = Inr cs" and a: "generateAutoCut e l = Inr a"
  shows "\<forall>ct \<in> set (fst (emplace cs a)). engineCut e ct"
proof
  fix ct assume "ct \<in> set (fst (emplace cs a))"
  with set_fst_emplace[of cs a] have "ct = a \<or> ct \<in> set cs" by auto
  then show "engineCut e ct"
  proof
    assume "ct = a" with a show ?thesis by (auto simp: engineCut_def)
  next
    assume m: "ct \<in> set cs"
    with childCutSet_cases[OF cs] have "getCutSet e l = Inr cs" by auto
    from getCutSet_mem[OF this] m show ?thesis by (auto simp: engineCut_def)
  qed
qed

lemma diamondOperation_diamondSpec:
  assumes good: "\<forall>ct \<in> set A \<union> set B. diamondInput e ct"
  shows "diamondOperation e a A B k = Inr (diamondSpec e A B k)
    \<and> distinct (map nodeVariables (diamondSpec e A B k))
    \<and> nodeVariables ` set (diamondSpec e A B k)
        = {nodeVariables x \<union> nodeVariables y | x y.
             x \<in> set A \<and> y \<in> set B \<and> card (nodeVariables x \<union> nodeVariables y) \<le> unat k}
    \<and> (\<forall>ct \<in> set (diamondSpec e A B k). \<exists>x \<in> set A. \<exists>y \<in> set B.
          nodeVariables ct = nodeVariables x \<union> nodeVariables y
          \<and> card (nodeVariables ct) \<le> unat k
          \<and> areaCost ct = of_nat (card {v \<in> nodeVariables ct.
                 nodeIsAnd (aigOf e) (literalFromIndex v)
                 \<and> implementationMap e (literalFromIndex v) = Some False})
          \<and> delayCost ct = max (delayCost x) (delayCost y)
          \<and> powerCost ct = 0)"
proof -
  let ?ok = "\<lambda>(x, y). card (nodeVariables x \<union> nodeVariables y) \<le> unat k"
  let ?cand = "\<lambda>(x, y). unionCandidate e x y"
  from good have "\<forall>(x, y) \<in> set (List.product A B). diamondInput e x \<and> diamondInput e y"
    by auto
  from foldE_diamondBody_good[OF this, of a k "[]"]
  have res: "diamondOperation e a A B k = Inr (diamondSpec e A B k)"
    by (simp add: diamondOperation_def foldE_product diamondSpec_def feasiblePairs_def)
  have dist: "distinct (map nodeVariables (diamondSpec e A B k))"
    unfolding diamondSpec_def by (rule mergeByLeaves_distinct) simp
  have "nodeVariables ` set (diamondSpec e A B k)
          = nodeVariables ` set (map ?cand (feasiblePairs A B k))"
    by (simp add: diamondSpec_def mergeByLeaves_leaves)
  also have "\<dots> = {nodeVariables x \<union> nodeVariables y | x y.
             x \<in> set A \<and> y \<in> set B \<and> card (nodeVariables x \<union> nodeVariables y) \<le> unat k}"
    by (force simp: feasiblePairs_def unionCandidate_def image_iff)
  finally have lv: "nodeVariables ` set (diamondSpec e A B k)
        = {nodeVariables x \<union> nodeVariables y | x y.
             x \<in> set A \<and> y \<in> set B \<and> card (nodeVariables x \<union> nodeVariables y) \<le> unat k}" .
  have each: "\<exists>x \<in> set A. \<exists>y \<in> set B.
          nodeVariables ct = nodeVariables x \<union> nodeVariables y
          \<and> card (nodeVariables ct) \<le> unat k
          \<and> areaCost ct = of_nat (card {v \<in> nodeVariables ct.
                 nodeIsAnd (aigOf e) (literalFromIndex v)
                 \<and> implementationMap e (literalFromIndex v) = Some False})
          \<and> delayCost ct = max (delayCost x) (delayCost y)
          \<and> powerCost ct = 0" if "ct \<in> set (diamondSpec e A B k)" for ct
  proof -
    from that mergeByLeaves_subset[of "[]" "map ?cand (feasiblePairs A B k)"]
    have "ct \<in> set (map ?cand (feasiblePairs A B k))" by (auto simp: diamondSpec_def)
    then obtain x y where xy: "x \<in> set A" "y \<in> set B"
      "card (nodeVariables x \<union> nodeVariables y) \<le> unat k" "ct = unionCandidate e x y"
      by (auto simp: feasiblePairs_def)
    have "Set.filter (\<lambda>v. nodeIsAnd (aigOf e) (literalFromIndex v)
                        \<and> implementationMap e (literalFromIndex v) = Some False)
             (nodeVariables x \<union> nodeVariables y)
          = {v \<in> nodeVariables x \<union> nodeVariables y.
               nodeIsAnd (aigOf e) (literalFromIndex v)
               \<and> implementationMap e (literalFromIndex v) = Some False}"
      by auto
    with xy show ?thesis by (auto simp: unionCandidate_def)
  qed
  from res dist lv each show ?thesis by blast
qed

section \<open>C1: the shared-subexpression design with \<open>k = 2\<close>\<close>

text \<open>C1 (amended). For the design with inputs 2 and 4, and-nodes \<open>6 = 2 \<and> 4\<close>,
  \<open>8 = 6 \<and> 2\<close>, \<open>10 = 6 \<and> 4\<close> and outputs 8 and 10, the engine followed by the mapper
  with \<open>k = 2\<close>, \<open>c = 0\<close> and goal MinimizeArea reports LUT count 2 and Levels 1, for
  every iteration bound of at least 3 and whatever sort the library provides.\<close>

theorem shared_k2_report:
  assumes "stdSortContract srt"
  shows "reported (mapDesign srt (3 + n) sharedDesign MinimizeArea 2 0) = Some (2, 1)"
  using shared_any_sort[OF assms] by (rule reported_more_fuel)

theorem shared_k2_report_witness:
  "stdSortContract insertionSort
   \<and> reported (mapDesign insertionSort 3 sharedDesign MinimizeArea 2 0) = Some (2, 1)"
  using shared_k2_report[OF insertionSort_contract, of 0] insertionSort_contract by simp

text \<open>C1, as stated: the report is not area 3 and depth 2, with the insertion sort and
  with every other sort that meets the contract.\<close>

theorem shared_k2_report_counterexample:
  "reported (mapDesign insertionSort 3 sharedDesign MinimizeArea 2 0) \<noteq> Some (3, 2)
   \<and> \<not> (\<exists>srt. stdSortContract srt
             \<and> reported (mapDesign srt 3 sharedDesign MinimizeArea 2 0) = Some (3, 2))"
proof
  show "reported (mapDesign insertionSort 3 sharedDesign MinimizeArea 2 0) \<noteq> Some (3, 2)"
    by code_simp
  show "\<not> (\<exists>srt. stdSortContract srt
             \<and> reported (mapDesign srt 3 sharedDesign MinimizeArea 2 0) = Some (3, 2))"
    using shared_any_sort by auto
qed

section \<open>C2: the cuts of a populated cut set\<close>

text \<open>C2, as stated: after \<open>findCuts\<close> on literal 8 of the shared-subexpression design
  the cut set of and-node 6 (variable 3) is populated, it holds the one cut with leaves
  1 and 2, and the singleton cut of variable 3 is not a member of it; with the
  insertion sort, and with every other sort that meets the contract.\<close>

theorem cutSet_leaves_counterexample:
  "getCutSet (engineAfter (freshEngine sharedDesign MinimizeArea 2 0)
                (findCuts insertionSort 3 (freshEngine sharedDesign MinimizeArea 2 0) 8)) 6
     = Inr [\<lparr>nodeVariables = {1, 2}, areaCost = 0, delayCost = 1, powerCost = 0\<rparr>]
   \<and> \<not> (\<exists>srt. stdSortContract srt
          \<and> getCutSet (engineAfter (freshEngine sharedDesign MinimizeArea 2 0)
                (findCuts srt 3 (freshEngine sharedDesign MinimizeArea 2 0) 8)) 6
              \<noteq> Inr [\<lparr>nodeVariables = {1, 2}, areaCost = 0, delayCost = 1, powerCost = 0\<rparr>])
   \<and> indexFromLiteral 6 = 3
   \<and> cutsWithLeaves {3}
        [\<lparr>nodeVariables = {1, 2}, areaCost = 0, delayCost = 1, powerCost = 0\<rparr>] = []"
proof -
  let ?init = "freshEngine sharedDesign MinimizeArea 2 0"
  let ?c = "\<lparr>nodeVariables = {1, 2}, areaCost = 0, delayCost = 1, powerCost = (0::uint)\<rparr>"
  have a: "getCutSet (engineAfter ?init (findCuts insertionSort 3 ?init 8)) 6 = Inr [?c]"
    by code_simp
  have b: "\<not> (\<exists>srt. stdSortContract srt
          \<and> getCutSet (engineAfter ?init (findCuts srt 3 ?init 8)) 6 \<noteq> Inr [?c])"
    using a by (auto simp: shared_findCuts_any_sort)
  have c: "indexFromLiteral 6 = 3" by code_simp
  have d: "cutsWithLeaves {3} [?c] = []" by code_simp
  from a b c d show ?thesis by (intro conjI)
qed

text \<open>C2 (amended). On a graph whose and-nodes passed the constructor's checks, with
  any sort that meets the contract of \<open>std::sort\<close>, in every state that an engine
  reaches through calls of \<open>findCuts\<close>, every cut in the cut
  set of an and-node \<open>a\<close> has at most \<open>k\<close> leaves, and no two cuts of the set have the
  same leaves. The singleton cut of \<open>var(a)\<close> is not a member of the stored set: the
  leaves of the stored cuts are variables of nodes below \<open>a\<close>. It is the autocut that
  phi builds for a parent of \<open>a\<close> and emplaces into its copy of the set, where it then
  occurs exactly once.\<close>

theorem cutSet_leaves:
  assumes "newCutEngine g goal k c = Inr e0"
    and "andNodesChecked g"
    and "reach srt e0 (stack, e)"
    and "getCutSet e a = Inr cs"
    and sc: "stdSortContract srt"
  shows "(\<forall>ct \<in> set cs. card (nodeVariables ct) \<le> unat k
                        \<and> nodeVariables ct \<noteq> {indexFromLiteral a})
         \<and> distinct (map nodeVariables cs)
         \<and> cutsWithLeaves {indexFromLiteral a} cs = []
         \<and> (\<forall>autoCut. generateAutoCut e a = Inr autoCut \<longrightarrow>
               nodeVariables autoCut = {indexFromLiteral a}
               \<and> cutsWithLeaves {indexFromLiteral a} (fst (emplace cs autoCut)) = [autoCut])"
proof -
  from assms(1) have e0: "e0 = freshEngine g goal k c" by (auto dest: newCutEngine_eq)
  then have g0: "aigOf e0 = g" "lutInputs e0 = k" by (simp_all add: freshEngine_def)
  from reach_cutSetsInv[OF sc assms(3)] e0 have inv: "cutSetsInv e" by (simp add: freshEngine_inv)
  from reach_leavesBelow[OF sc assms(3)] e0 g0 assms(2) have lb: "leavesBelow e"
    by (simp add: freshEngine_below)
  from reach_keeps[OF assms(3)] g0 have k: "lutInputs e = k" by simp
  from inv getCutSet_mem[OF assms(4)] k have
    d: "distinct (map nodeVariables cs)" and ci: "\<forall>ct \<in> set cs. cutInv k ct"
    by (auto simp: cutSetsInv_def)
  from lb assms(4) have below: "\<forall>ct \<in> set cs. \<forall>v \<in> nodeVariables ct. v < indexFromLiteral a"
    by (auto simp: leavesBelow_def)
  then have ns: "\<forall>ct \<in> set cs. nodeVariables ct \<noteq> {indexFromLiteral a}" by auto
  then have none: "cutsWithLeaves {indexFromLiteral a} cs = []"
    by (auto simp: cutsWithLeaves_def filter_empty_conv)
  have "nodeVariables autoCut = {indexFromLiteral a}
        \<and> cutsWithLeaves {indexFromLiteral a} (fst (emplace cs autoCut)) = [autoCut]"
    if "generateAutoCut e a = Inr autoCut" for autoCut
  proof -
    from generateAutoCut_cases[OF that] have lv: "nodeVariables autoCut = {indexFromLiteral a}"
      by simp
    with ns have "findCut autoCut cs = None" by (simp add: findCut_None_iff)
    then have "fst (emplace cs autoCut) = cs @ [autoCut]" by (simp add: emplace_def)
    with none lv show ?thesis by (simp add: cutsWithLeaves_def)
  qed
  with ci ns d none show ?thesis by (simp add: cutInv_def)
qed

theorem cutSet_leaves_witness:
  "stdSortContract insertionSort
   \<and> newCutEngine sharedDesign MinimizeArea 2 0 = Inr (freshEngine sharedDesign MinimizeArea 2 0)
   \<and> andNodesChecked sharedDesign
   \<and> reach insertionSort (freshEngine sharedDesign MinimizeArea 2 0)
        ([], engineAfter (freshEngine sharedDesign MinimizeArea 2 0)
               (findCuts insertionSort 3 (freshEngine sharedDesign MinimizeArea 2 0) 8))
   \<and> getCutSet (engineAfter (freshEngine sharedDesign MinimizeArea 2 0)
                   (findCuts insertionSort 3 (freshEngine sharedDesign MinimizeArea 2 0) 8)) 8
       = Inr [\<lparr>nodeVariables = {1, 2}, areaCost = 0, delayCost = 1, powerCost = 0\<rparr>,
              \<lparr>nodeVariables = {1, 3}, areaCost = 0, delayCost = 2, powerCost = 0\<rparr>]
   \<and> generateAutoCut (engineAfter (freshEngine sharedDesign MinimizeArea 2 0)
                   (findCuts insertionSort 3 (freshEngine sharedDesign MinimizeArea 2 0) 8)) 8
       = Inr \<lparr>nodeVariables = {4}, areaCost = 0, delayCost = 2, powerCost = 0\<rparr>
   \<and> cutsWithLeaves {indexFromLiteral 8}
        [\<lparr>nodeVariables = {1, 2}, areaCost = 0, delayCost = 1, powerCost = 0\<rparr>,
         \<lparr>nodeVariables = {1, 3}, areaCost = 0, delayCost = 2, powerCost = 0\<rparr>] = []
   \<and> cutsWithLeaves {indexFromLiteral 8}
        (fst (emplace
          [\<lparr>nodeVariables = {1, 2}, areaCost = 0, delayCost = 1, powerCost = 0\<rparr>,
           \<lparr>nodeVariables = {1, 3}, areaCost = 0, delayCost = 2, powerCost = 0\<rparr>]
          \<lparr>nodeVariables = {4}, areaCost = 0, delayCost = 2, powerCost = 0\<rparr>))
       = [\<lparr>nodeVariables = {4}, areaCost = 0, delayCost = 2, powerCost = 0\<rparr>]"
proof -
  let ?init = "freshEngine sharedDesign MinimizeArea 2 0"
  let ?eng = "engineAfter ?init (findCuts insertionSort 3 ?init 8)"
  let ?cs = "[\<lparr>nodeVariables = {1, 2}, areaCost = 0, delayCost = 1, powerCost = 0\<rparr>,
              \<lparr>nodeVariables = {1, 3}, areaCost = 0, delayCost = 2, powerCost = (0::uint)\<rparr>]"
  let ?auto = "\<lparr>nodeVariables = {4}, areaCost = 0, delayCost = 2, powerCost = (0::uint)\<rparr>"
  have n: "newCutEngine sharedDesign MinimizeArea 2 0 = Inr ?init"
    by (simp add: newCutEngine_def freshEngine_def)
  from findCuts_reach[OF sharedDesign_after_8 reach.constructed]
  have r: "reach insertionSort ?init ([], ?eng)" .
  have c: "getCutSet ?eng 8 = Inr ?cs" by code_simp
  have a: "generateAutoCut ?eng 8 = Inr ?auto" by code_simp
  from cutSet_leaves[OF n andNodesChecked_sharedDesign r c insertionSort_contract] a
  have "cutsWithLeaves {indexFromLiteral 8} ?cs = []
        \<and> cutsWithLeaves {indexFromLiteral 8} (fst (emplace ?cs ?auto)) = [?auto]"
    by blast
  with insertionSort_contract n andNodesChecked_sharedDesign r c a show ?thesis by blast
qed

section \<open>C3: and-nodes with a latch child\<close>




section \<open>C4: the comparators\<close>

text \<open>C4 at two cuts of area 0 and delay 1, the first with one leaf and the second
  with two. The header of the engine documents, for both comparators, that the number
  of variables breaks a tie on both costs, which is what the claim says. The
  comparators read the two costs only: the cut with fewer leaves does not precede the
  other under either comparator, and neither does the other precede it.\<close>

theorem comparators_ignore_leafCount:
  "areaCost \<lparr>nodeVariables = {1}, areaCost = 0, delayCost = 1, powerCost = 0\<rparr>
     = areaCost \<lparr>nodeVariables = {1, 2}, areaCost = 0, delayCost = 1, powerCost = 0\<rparr>
   \<and> delayCost \<lparr>nodeVariables = {1}, areaCost = 0, delayCost = 1, powerCost = 0\<rparr>
     = delayCost \<lparr>nodeVariables = {1, 2}, areaCost = 0, delayCost = 1, powerCost = 0\<rparr>
   \<and> numNodeVariables \<lparr>nodeVariables = {1}, areaCost = 0, delayCost = 1, powerCost = 0\<rparr>
     < numNodeVariables \<lparr>nodeVariables = {1, 2}, areaCost = 0, delayCost = 1, powerCost = 0\<rparr>
   \<and> \<not> cutAreaComparision
        \<lparr>nodeVariables = {1}, areaCost = 0, delayCost = 1, powerCost = 0\<rparr>
        \<lparr>nodeVariables = {1, 2}, areaCost = 0, delayCost = 1, powerCost = 0\<rparr>
   \<and> \<not> cutDelayComparision
        \<lparr>nodeVariables = {1}, areaCost = 0, delayCost = 1, powerCost = 0\<rparr>
        \<lparr>nodeVariables = {1, 2}, areaCost = 0, delayCost = 1, powerCost = 0\<rparr>
   \<and> \<not> cutAreaComparision
        \<lparr>nodeVariables = {1, 2}, areaCost = 0, delayCost = 1, powerCost = 0\<rparr>
        \<lparr>nodeVariables = {1}, areaCost = 0, delayCost = 1, powerCost = 0\<rparr>
   \<and> \<not> cutDelayComparision
        \<lparr>nodeVariables = {1, 2}, areaCost = 0, delayCost = 1, powerCost = 0\<rparr>
        \<lparr>nodeVariables = {1}, areaCost = 0, delayCost = 1, powerCost = 0\<rparr>"
  by (simp add: cutAreaComparision_def cutDelayComparision_def numNodeVariables_def)

section \<open>C5: running the mapper twice\<close>

text \<open>C5, as stated: for the design whose only output is its only input, the first
  run reports area 1 and depth 1, and a second run on the same mapper reports area 2,
  whatever the sort (the design has no and-node, so nothing is sorted).\<close>

theorem run_twice_counterexample:
  "\<forall>srt.
     reported (run srt 0 (newTechMapper (freshEngine wireDesign MinimizeArea 2 0))) = Some (1, 1)
     \<and> reported (runAgain srt 0 (run srt 0 (newTechMapper (freshEngine wireDesign MinimizeArea 2 0))))
         = Some (2, 1)"
  by (intro allI conjI; code_simp)

text \<open>C5 (amended). For every graph, engine state and sort on which a first call of
  \<open>run\<close> returns, a second call on the same mapper returns as well and leaves the reported
  depth equal to its value after the first call; it raises the reported area by the
  number of output literals that are primary inputs or constants, which \<open>run\<close> charges
  on every call. So the area is left equal too when no output is a primary input or a
  constant.\<close>

theorem run_twice:
  assumes "run srt fuel tm = Some (Inr tm1)"
  shows "\<exists>tm2. run srt' fuel' tm1 = Some (Inr tm2)
           \<and> mappingDelayCost tm2 = mappingDelayCost tm1
           \<and> mappingAreaCost tm2
               = mappingAreaCost tm1 + of_nat (length (directOutputs (aigOf (cutEngine tm))))
           \<and> (directOutputs (aigOf (cutEngine tm)) = [] \<longrightarrow>
                mappingAreaCost tm2 = mappingAreaCost tm1)"
proof -
  let ?g = "aigOf (cutEngine tm)"
  from assms have r: "runOutputs srt fuel (outputLiteralVector ?g) tm = Some (Inr tm1)"
    by (simp add: run_def)
  note f = runOutputs_first[OF r]
  from f have g: "aigOf (cutEngine tm1) = ?g" by (simp add: extends_def)
  have "runOutputs srt' fuel' (outputLiteralVector ?g) tm1 =
           Some (Inr (tm1\<lparr>mappingAreaCost := mappingAreaCost tm1
                          + of_nat (length (filter (isDirect (aigOf (cutEngine tm1)))
                                       (outputLiteralVector ?g)))\<rparr>))"
    using f g by (intro runOutputs_second) auto
  moreover have "filter (isDirect ?g) (outputLiteralVector ?g) = directOutputs ?g"
    by (simp add: directOutputs_def)
  ultimately show ?thesis using g by (simp add: run_def)
qed

theorem run_twice_witness:
  "(\<exists>tm1 tm2. run insertionSort 0 (newTechMapper (freshEngine wireDesign MinimizeArea 2 0)) = Some (Inr tm1)
      \<and> run insertionSort 0 tm1 = Some (Inr tm2)
      \<and> mappingDelayCost tm2 = mappingDelayCost tm1
      \<and> mappingAreaCost tm2 = mappingAreaCost tm1 + 1)
   \<and> (\<exists>tm1 tm2. run insertionSort 3 (newTechMapper (freshEngine sharedDesign MinimizeArea 2 0)) = Some (Inr tm1)
      \<and> directOutputs sharedDesign = []
      \<and> run insertionSort 0 tm1 = Some (Inr tm2)
      \<and> mappingDelayCost tm2 = mappingDelayCost tm1
      \<and> mappingAreaCost tm2 = mappingAreaCost tm1)"
proof
  let ?tm = "newTechMapper (freshEngine wireDesign MinimizeArea 2 0)"
  have "reported (run insertionSort 0 ?tm) = Some (1, 1)" by code_simp
  then obtain tm1 where r: "run insertionSort 0 ?tm = Some (Inr tm1)" by (blast dest: reported_SomeD)
  have g: "aigOf (cutEngine ?tm) = wireDesign" by (simp add: newTechMapper_def freshEngine_def)
  have d: "directOutputs wireDesign = [2]" by code_simp
  from run_twice [OF r, of insertionSort 0] g d r
  show "\<exists>tm1 tm2. run insertionSort 0 ?tm = Some (Inr tm1) \<and> run insertionSort 0 tm1 = Some (Inr tm2)
      \<and> mappingDelayCost tm2 = mappingDelayCost tm1
      \<and> mappingAreaCost tm2 = mappingAreaCost tm1 + 1"
    by auto
next
  let ?tm = "newTechMapper (freshEngine sharedDesign MinimizeArea 2 0)"
  have "reported (run insertionSort 3 ?tm) = Some (2, 1)" by code_simp
  then obtain tm1 where r: "run insertionSort 3 ?tm = Some (Inr tm1)" by (blast dest: reported_SomeD)
  have g: "aigOf (cutEngine ?tm) = sharedDesign" by (simp add: newTechMapper_def freshEngine_def)
  have d: "directOutputs sharedDesign = []" by code_simp
  from run_twice [OF r, of insertionSort 0] g d r
  show "\<exists>tm1 tm2. run insertionSort 3 ?tm = Some (Inr tm1) \<and> directOutputs sharedDesign = []
      \<and> run insertionSort 0 tm1 = Some (Inr tm2)
      \<and> mappingDelayCost tm2 = mappingDelayCost tm1
      \<and> mappingAreaCost tm2 = mappingAreaCost tm1"
    by auto
qed

section \<open>C6: the exit code of the command-line tool\<close>

text \<open>C6 at two failing invocations: a file that cannot be opened, and \<open>k = 1\<close>,
  which the constructor of the engine refuses. In both the handler of \<open>main\<close> writes
  the message to the standard error stream, and the process ends with exit code 0, not
  with a nonzero code.\<close>

theorem main_failure_exit_code:
  "main (\<lambda>path. Inl ''Unable to open file'') what srt fuel [''tmap'', ''missing.aag'']
     = Some \<lparr>exitCode = 0, stdoutLines = [],
             stderrLines = [''An error has ocurred.'', ''  what(): Unable to open file'']\<rparr>
   \<and> main (\<lambda>path. Inr sharedDesign) (\<lambda>err. ''k must be greater than 1'') srt fuel
          [''tmap'', ''shared.aag'', ''1'']
     = Some \<lparr>exitCode = 0, stdoutLines = [],
             stderrLines = [''An error has ocurred.'', ''  what(): k must be greater than 1'']\<rparr>"
  by (simp add: main_def mainHandler_def atoi_def strtol_def newCutEngine_def)

section \<open>C7: the diamond operation\<close>

text \<open>C7. \<open>diamondOperation\<close> is a private method of the engine: its arguments are the
  cut sets that \<open>phiOperation\<close> builds from the engine's state, made of stored cuts and
  of autocuts. In every state that an engine reaches from its construction, on a graph
  whose variables fit the literals and with any sort that meets the contract of
  \<open>std::sort\<close>, for every pair of cut sets \<open>A\<close> and \<open>B\<close> of such cuts whose cuts all have
  their three costs set, \<open>diamondOperation\<close> returns, and it returns exactly what the
  specification describes: the pairwise unions \<open>x \<union> y\<close> for \<open>(x, y)\<close> in \<open>A \<times> B\<close> with
  at most \<open>k\<close> leaves, in the order of the iteration and with duplicates by leaf set
  merged into the first. So the leaf sets of the result are exactly the feasible
  unions, no two cuts of the result have the same leaves, and each cut of the result
  has as area the number of its leaves that are and-nodes whose entry in the
  implementation map is \<open>false\<close>, as delay the maximum of the delays of a pair it is the
  union of (no \<open>+ 1\<close>), and power 0.\<close>

theorem diamond_refines_spec:
  assumes new: "newCutEngine g goal lutK c = Inr e0"
    and fits: "aigFits g"
    and sc: "stdSortContract srt"
    and r: "reach srt e0 (stack, e)"
    and cuts: "\<forall>ct \<in> set A \<union> set B. engineCut e ct"
    and costs: "\<forall>ct \<in> set A \<union> set B. allCostsSet ct"
  shows "diamondOperation e a A B k = Inr (diamondSpec e A B k)
    \<and> distinct (map nodeVariables (diamondSpec e A B k))
    \<and> nodeVariables ` set (diamondSpec e A B k)
        = {nodeVariables x \<union> nodeVariables y | x y.
             x \<in> set A \<and> y \<in> set B \<and> card (nodeVariables x \<union> nodeVariables y) \<le> unat k}
    \<and> (\<forall>ct \<in> set (diamondSpec e A B k). \<exists>x \<in> set A. \<exists>y \<in> set B.
          nodeVariables ct = nodeVariables x \<union> nodeVariables y
          \<and> card (nodeVariables ct) \<le> unat k
          \<and> areaCost ct = of_nat (card {v \<in> nodeVariables ct.
                 nodeIsAnd (aigOf e) (literalFromIndex v)
                 \<and> implementationMap e (literalFromIndex v) = Some False})
          \<and> delayCost ct = max (delayCost x) (delayCost y)
          \<and> powerCost ct = 0)"
proof -
  from new have e0: "e0 = freshEngine g goal lutK c" by (auto dest: newCutEngine_eq)
  from reach_cutSetsInv[OF sc r] e0 have inv: "cutSetsInv e" by (simp add: freshEngine_inv)
  from reach_entries[OF r] e0 fits have en: "entriesInv e" by (simp add: freshEngine_entries)
  have "\<forall>ct \<in> set A \<union> set B. diamondInput e ct"
  proof
    fix ct assume m: "ct \<in> set A \<union> set B"
    with cuts costs have "engineCut e ct" "allCostsSet ct" by blast+
    with inv en show "diamondInput e ct" by (rule engineCut_diamondInput)
  qed
  then show ?thesis by (rule diamondOperation_diamondSpec)
qed

text \<open>The pair of cut sets that \<open>phiOperation\<close> passes for node 8 of the design with the
  negated edge, once node 6 has its cut set: the cut set of the child 7 with the autocut
  of variable 3, and the autocut of the input 2.\<close>

theorem diamond_refines_spec_witness:
  "newCutEngine negatedDesign MinimizeArea 2 0 = Inr negatedInit
   \<and> aigFits negatedDesign
   \<and> stdSortContract insertionSort
   \<and> reach insertionSort negatedInit ([8], negatedMarked)
   \<and> childCutSet negatedMarked 7
       = Inr [\<lparr>nodeVariables = {1, 2}, areaCost = 0, delayCost = 1, powerCost = 0\<rparr>]
   \<and> generateAutoCut negatedMarked 7
       = Inr \<lparr>nodeVariables = {3}, areaCost = 0, delayCost = 2, powerCost = 0\<rparr>
   \<and> childCutSet negatedMarked 2 = Inr []
   \<and> generateAutoCut negatedMarked 2
       = Inr \<lparr>nodeVariables = {1}, areaCost = 0, delayCost = 1, powerCost = 0\<rparr>
   \<and> fst (emplace [\<lparr>nodeVariables = {1, 2}, areaCost = 0, delayCost = 1, powerCost = 0\<rparr>]
                  \<lparr>nodeVariables = {3}, areaCost = 0, delayCost = 2, powerCost = 0\<rparr>)
       = [\<lparr>nodeVariables = {1, 2}, areaCost = 0, delayCost = 1, powerCost = 0\<rparr>,
          \<lparr>nodeVariables = {3}, areaCost = 0, delayCost = 2, powerCost = 0\<rparr>]
   \<and> fst (emplace [] \<lparr>nodeVariables = {1}, areaCost = 0, delayCost = 1, powerCost = 0\<rparr>)
       = [\<lparr>nodeVariables = {1}, areaCost = 0, delayCost = 1, powerCost = 0\<rparr>]
   \<and> diamondOperation negatedMarked 8
        [\<lparr>nodeVariables = {1, 2}, areaCost = 0, delayCost = 1, powerCost = 0\<rparr>,
         \<lparr>nodeVariables = {3}, areaCost = 0, delayCost = 2, powerCost = 0\<rparr>]
        [\<lparr>nodeVariables = {1}, areaCost = 0, delayCost = 1, powerCost = 0\<rparr>] 2
       = Inr [\<lparr>nodeVariables = {1, 2}, areaCost = 0, delayCost = 1, powerCost = 0\<rparr>,
              \<lparr>nodeVariables = {1, 3}, areaCost = 1, delayCost = 2, powerCost = 0\<rparr>]"
proof -
  let ?c12 = "\<lparr>nodeVariables = {1, 2}, areaCost = 0, delayCost = 1, powerCost = (0::uint)\<rparr>"
  let ?c3 = "\<lparr>nodeVariables = {3}, areaCost = 0, delayCost = 2, powerCost = (0::uint)\<rparr>"
  let ?c1 = "\<lparr>nodeVariables = {1}, areaCost = 0, delayCost = 1, powerCost = (0::uint)\<rparr>"
  let ?A = "[?c12, ?c3]"
  let ?B = "[?c1]"
  have n: "newCutEngine negatedDesign MinimizeArea 2 0 = Inr negatedInit"
    by (simp add: newCutEngine_def negatedInit_def freshEngine_def)
  from negatedDesign_ok have ft: "aigFits negatedDesign" by simp
  from negated_reach have r: "reach insertionSort negatedInit ([8], negatedMarked)" by simp
  have s7: "childCutSet negatedMarked 7 = Inr [?c12]" by code_simp
  have a7: "generateAutoCut negatedMarked 7 = Inr ?c3" by code_simp
  have s2: "childCutSet negatedMarked 2 = Inr []" by code_simp
  have a2: "generateAutoCut negatedMarked 2 = Inr ?c1" by code_simp
  have eA: "fst (emplace [?c12] ?c3) = ?A" by code_simp
  have eB: "fst (emplace [] ?c1) = ?B" by code_simp
  from phi_arguments_engineCut[OF s7 a7] phi_arguments_engineCut[OF s2 a2]
  have cuts: "\<forall>ct \<in> set ?A \<union> set ?B. engineCut negatedMarked ct"
    unfolding eA eB by blast
  have "list_all allCostsSet (?A @ ?B)" by code_simp
  then have costs: "\<forall>ct \<in> set ?A \<union> set ?B. allCostsSet ct"
    by (simp only: list_all_iff set_append)
  have s: "diamondSpec negatedMarked ?A ?B 2
       = [\<lparr>nodeVariables = {1, 2}, areaCost = 0, delayCost = 1, powerCost = 0\<rparr>,
          \<lparr>nodeVariables = {1, 3}, areaCost = 1, delayCost = 2, powerCost = 0\<rparr>]"
    by code_simp
  from diamond_refines_spec[OF n ft insertionSort_contract r cuts costs, of 8 2] s
  have "diamondOperation negatedMarked 8 ?A ?B 2
       = Inr [\<lparr>nodeVariables = {1, 2}, areaCost = 0, delayCost = 1, powerCost = 0\<rparr>,
              \<lparr>nodeVariables = {1, 3}, areaCost = 1, delayCost = 2, powerCost = 0\<rparr>]"
    by simp
  with n ft insertionSort_contract r s7 a7 s2 a2 eA eB show ?thesis by (intro conjI)
qed

section \<open>C8: the delay of a best cut\<close>

text \<open>C8. With any sort that meets the contract of \<open>std::sort\<close>, in every state that
  an engine reaches from its construction through calls of \<open>findCuts\<close>, every and-node \<open>a\<close> whose cut set is populated has a best cut, and
  the delay of that best cut is at least 1.\<close>

theorem bestCut_delay_ge_1:
  assumes "newCutEngine g goal k c = Inr e0"
    and "reach srt e0 (stack, e)"
    and "nodeIsAnd g a"
    and "getCutSet e a = Inr cs"
    and "cs \<noteq> []"
    and sc: "stdSortContract srt"
  shows "\<exists>b. getBestCut e a = Inr b \<and> 1 \<le> delayCost b \<and> 1 \<le> unat (delayCost b)"
proof -
  from assms(1) have "cutSetsInv e0" by (auto dest!: newCutEngine_eq simp: freshEngine_inv)
  from reach_cutSetsInv[OF sc assms(2) this] have inv: "cutSetsInv e" by simp
  from assms(4,5) have b: "getBestCut e a = Inr (cs ! 0)" by (simp add: getBestCut_eq bindE_def)
  from assms(5) have "cs ! 0 \<in> set cs" by simp
  with inv getCutSet_mem[OF assms(4)] have "cutInv (lutInputs e) (cs ! 0)"
    by (auto simp: cutSetsInv_def)
  then have "1 \<le> delayCost (cs ! 0)" by (simp add: cutInv_def)
  moreover then have "1 \<le> unat (delayCost (cs ! 0))" by (simp add: word_le_nat_alt)
  ultimately show ?thesis using b by simp
qed

theorem bestCut_delay_ge_1_witness:
  "stdSortContract insertionSort
   \<and> newCutEngine sharedDesign MinimizeArea 2 0 = Inr (freshEngine sharedDesign MinimizeArea 2 0)
   \<and> reach insertionSort (freshEngine sharedDesign MinimizeArea 2 0)
        ([], engineAfter (freshEngine sharedDesign MinimizeArea 2 0)
               (findCuts insertionSort 3 (freshEngine sharedDesign MinimizeArea 2 0) 8))
   \<and> nodeIsAnd sharedDesign 6
   \<and> getCutSet (engineAfter (freshEngine sharedDesign MinimizeArea 2 0)
                   (findCuts insertionSort 3 (freshEngine sharedDesign MinimizeArea 2 0) 8)) 6
       = Inr [\<lparr>nodeVariables = {1, 2}, areaCost = 0, delayCost = 1, powerCost = 0\<rparr>]
   \<and> (\<exists>b. getBestCut (engineAfter (freshEngine sharedDesign MinimizeArea 2 0)
                   (findCuts insertionSort 3 (freshEngine sharedDesign MinimizeArea 2 0) 8)) 6 = Inr b
          \<and> 1 \<le> delayCost b)"
proof -
  let ?init = "freshEngine sharedDesign MinimizeArea 2 0"
  let ?eng = "engineAfter ?init (findCuts insertionSort 3 ?init 8)"
  have n: "newCutEngine sharedDesign MinimizeArea 2 0 = Inr ?init"
    by (simp add: newCutEngine_def freshEngine_def)
  have "case findCuts insertionSort 3 ?init 8 of Some (Inr e) \<Rightarrow> True | _ \<Rightarrow> False" by code_simp
  then have "\<exists>e. findCuts insertionSort 3 ?init 8 = Some (Inr e)" by (auto split: option.splits sum.splits)
  then have "findCuts insertionSort 3 ?init 8 = Some (Inr ?eng)" by (rule engineAfter_eq)
  from findCuts_reach[OF this reach.constructed] have r: "reach insertionSort ?init ([], ?eng)" .
  have a: "nodeIsAnd sharedDesign 6" by code_simp
  have c: "getCutSet ?eng 6
       = Inr [\<lparr>nodeVariables = {1, 2}, areaCost = 0, delayCost = 1, powerCost = 0\<rparr>]"
    by code_simp
  from bestCut_delay_ge_1[OF n r a c _ insertionSort_contract] insertionSort_contract n r a c
  show ?thesis by auto
qed

section \<open>C9: union and equality of cuts\<close>

text \<open>C9. The union of two cuts raises exactly when an operand has no leaf. Otherwise
  it returns a cut whose leaves are the union of the operands' leaves and whose area,
  delay and power costs are all the reserved value for unset, so that \<open>allCostsSet\<close>
  is false of it. Two cuts are equal exactly when their leaf sets are equal, whatever
  their costs are.\<close>

theorem cutUnion_cutEq:
  "((\<exists>err. cutUnion x y = Inl err) \<longleftrightarrow> (nodeVariables x = {} \<or> nodeVariables y = {}))
   \<and> (nodeVariables x \<noteq> {} \<and> nodeVariables y \<noteq> {} \<longrightarrow>
        (\<exists>u. cutUnion x y = Inr u
           \<and> nodeVariables u = nodeVariables x \<union> nodeVariables y
           \<and> areaCost u = unsetCost \<and> delayCost u = unsetCost \<and> powerCost u = unsetCost
           \<and> \<not> allCostsSet u))
   \<and> (cutEq x y \<longleftrightarrow> nodeVariables x = nodeVariables y)
   \<and> (cutEq (x\<lparr>areaCost := a, delayCost := d, powerCost := p\<rparr>)
              (y\<lparr>areaCost := a', delayCost := d', powerCost := p'\<rparr>) \<longleftrightarrow> cutEq x y)"
  by (simp add: cutUnion_def cutEq_def allCostsSet_def)

theorem cutUnion_cutEq_witness:
  "nodeVariables \<lparr>nodeVariables = {1}, areaCost = 0, delayCost = 1, powerCost = 0\<rparr> \<noteq> {}
   \<and> nodeVariables \<lparr>nodeVariables = {2}, areaCost = 0, delayCost = 1, powerCost = 0\<rparr> \<noteq> {}
   \<and> (\<exists>u. cutUnion \<lparr>nodeVariables = {1}, areaCost = 0, delayCost = 1, powerCost = 0\<rparr>
                    \<lparr>nodeVariables = {2}, areaCost = 0, delayCost = 1, powerCost = 0\<rparr> = Inr u
          \<and> nodeVariables u = {1, 2} \<and> \<not> allCostsSet u)"
  using cutUnion_cutEq
    [of "\<lparr>nodeVariables = {1}, areaCost = 0, delayCost = 1, powerCost = 0\<rparr>"
        "\<lparr>nodeVariables = {2}, areaCost = 0, delayCost = 1, powerCost = 0\<rparr>"
        0 0 0 0 0 0]
  by (auto simp: insert_commute)

section \<open>C10: marks under odd literals\<close>

text \<open>C10. On a graph that passed the constructor's checks, in every state that an
  engine reaches through calls of \<open>findCuts\<close>, in whatever order the library's sort
  leaves the cuts:

  \<^item> when the iteration for the literal \<open>t\<close> on top of the stack stores a best cut of
    area 0, it marks \<open>implementationMap\<close> at \<open>t\<close> itself, as it was pushed. For an odd
    \<open>t\<close> that key is new, and the entry at the even literal \<open>t - 1\<close> of the same node is
    \<open>false\<close> before and after;
  \<^item> for every odd and-literal \<open>l\<close> that is marked, the entry at the even literal
    \<open>l - 1\<close> is \<open>false\<close>, and \<open>l - 1 = 2 * var(l)\<close> is the key that
    \<open>estimateUnionCutAreaCost\<close> looks up: for every cut with the node among its leaves
    the literal is in the set of unimplemented nodes whose size the estimate returns;
  \<^item> no later iteration removes the mark of an odd literal.

  So the second fact holds in all later states of the engine.\<close>

theorem odd_literal_mark:
  assumes new: "newCutEngine g goal k c = Inr e0"
    and ck: "andNodesChecked g"
    and fits: "aigFits g"
    and r: "reach srt e0 (stack, e)"
  shows "(\<forall>t rest e' b.
            stack = t # rest \<and> findCutsBody srt e t = Inr (None, e')
            \<and> getBestCut e' t = Inr b \<and> areaCost b = 0 \<longrightarrow>
              implementationMap e' t = Some True
              \<and> (t mod 2 = 1 \<longrightarrow>
                    implementationMap e t = None
                    \<and> implementationMap e (t - 1) = Some False
                    \<and> implementationMap e' (t - 1) = Some False))
         \<and> (\<forall>l. nodeIsAnd g l \<and> l mod 2 = 1 \<and> implementationMap e l = Some True \<longrightarrow>
               implementationMap e (l - 1) = Some False
               \<and> literalFromIndex (indexFromLiteral l) = l - 1
               \<and> (\<forall>u. indexFromLiteral l \<in> nodeVariables u \<longrightarrow>
                      l - 1 \<in> unimplementedNodes e u
                      \<and> (\<forall>a n. estimateUnionCutAreaCost e a u = Inr n \<longrightarrow>
                             n = of_nat (card (unimplementedNodes e u)))))
         \<and> (\<forall>l t nxt e'.
               l mod 2 = 1 \<and> implementationMap e l = Some True
               \<and> findCutsBody srt e t = Inr (nxt, e') \<longrightarrow> implementationMap e' l = Some True)"
proof -
  from new have e0: "e0 = freshEngine g goal k c" by (auto dest: newCutEngine_eq)
  then have g0: "aigOf e0 = g" by (simp add: freshEngine_def)
  from reach_keeps[OF r] g0 have g: "aigOf e = g" by simp
  from reach_mapInv[OF r] e0 g0 ck fits have mi: "mapInv e" and si: "stackInv e stack"
    by (simp_all add: freshEngine_mapInv)
  from ck g have ck': "andNodesChecked (aigOf e)" by simp
  show ?thesis
  proof (intro conjI allI impI)
    fix t rest e' b
    assume h: "stack = t # rest \<and> findCutsBody srt e t = Inr (None, e')
            \<and> getBestCut e' t = Inr b \<and> areaCost b = 0"
    then have h1: "findCutsBody srt e t = Inr (None, e')" and h2: "getBestCut e' t = Inr b"
      and h3: "areaCost b = 0" by simp_all
    from h si have si': "stackInv e (t # rest)" by simp
    note n = odd_mark_new[OF ck' mi si' h1 h2 h3]
    from n show "implementationMap e' t = Some True" by (rule conjunct1)
    assume "t mod 2 = 1"
    with n show "implementationMap e t = None" "implementationMap e (t - 1) = Some False"
      "implementationMap e' (t - 1) = Some False" by simp_all
  next
    fix l
    assume h: "nodeIsAnd g l \<and> l mod 2 = 1 \<and> implementationMap e l = Some True"
    with mi g show f: "implementationMap e (l - 1) = Some False" by (simp add: mapInv_def)
    from h show "literalFromIndex (indexFromLiteral l) = l - 1"
      by (simp add: literal_of_index evenLiteral_odd)
    fix u :: Cut assume u: "indexFromLiteral l \<in> nodeVariables u"
    from h g have "nodeIsAnd (aigOf e) l" "l mod 2 = 1" by simp_all
    from odd_mark_counted[OF this f u] show "l - 1 \<in> unimplementedNodes e u" .
    fix a n :: uint assume "estimateUnionCutAreaCost e a u = Inr n"
    then show "n = of_nat (card (unimplementedNodes e u))"
      by (simp add: estimateUnionCutAreaCost_def split: if_splits)
  next
    fix l t nxt e'
    assume "l mod 2 = 1 \<and> implementationMap e l = Some True
               \<and> findCutsBody srt e t = Inr (nxt, e')"
    then have "l mod 2 = 1" "implementationMap e l = Some True"
      "findCutsBody srt e t = Inr (nxt, e')" by simp_all
    then show "implementationMap e' l = Some True" by (rule odd_mark_kept)
  qed
qed

theorem odd_literal_mark_witness:
  "newCutEngine negatedDesign MinimizeArea 2 0 = Inr negatedInit
   \<and> andNodesChecked negatedDesign \<and> aigFits negatedDesign
   \<and> reach insertionSort negatedInit ([7, 8], negatedPushed)
   \<and> findCutsBody insertionSort negatedPushed 7 = Inr (None, negatedMarked)
   \<and> getBestCut negatedMarked 7
       = Inr \<lparr>nodeVariables = {1, 2}, areaCost = 0, delayCost = 1, powerCost = 0\<rparr>
   \<and> (7 :: uint) mod 2 = 1
   \<and> implementationMap negatedPushed 7 = None
   \<and> implementationMap negatedMarked 7 = Some True
   \<and> implementationMap negatedMarked 6 = Some False
   \<and> reach insertionSort negatedInit ([8], negatedMarked)
   \<and> nodeIsAnd negatedDesign 7
   \<and> indexFromLiteral 7 \<in> nodeVariables
         \<lparr>nodeVariables = {1, 3}, areaCost = 0, delayCost = 0, powerCost = 0\<rparr>
   \<and> 6 \<in> unimplementedNodes negatedMarked
         \<lparr>nodeVariables = {1, 3}, areaCost = 0, delayCost = 0, powerCost = 0\<rparr>
   \<and> findCutsBody insertionSort negatedMarked 8 = Inr (None, negatedDone)
   \<and> implementationMap negatedDone 7 = Some True"
proof -
  let ?b = "\<lparr>nodeVariables = {1, 2}, areaCost = 0, delayCost = 1, powerCost = (0::uint)\<rparr>"
  let ?u = "\<lparr>nodeVariables = {1, 3}, areaCost = 0, delayCost = 0, powerCost = (0::uint)\<rparr>"
  have n: "newCutEngine negatedDesign MinimizeArea 2 0 = Inr negatedInit"
    by (simp add: newCutEngine_def negatedInit_def freshEngine_def)
  from negatedDesign_ok have ck: "andNodesChecked negatedDesign" and ft: "aigFits negatedDesign"
    by simp_all
  from negated_reach have r1: "reach insertionSort negatedInit ([7, 8], negatedPushed)"
    and r2: "reach insertionSort negatedInit ([8], negatedMarked)" by simp_all
  from negated_steps have s1: "findCutsBody insertionSort negatedPushed 7 = Inr (None, negatedMarked)"
    and s2: "findCutsBody insertionSort negatedMarked 8 = Inr (None, negatedDone)" by simp_all
  have bc: "getBestCut negatedMarked 7 = Inr ?b" by code_simp
  have od: "(7 :: uint) mod 2 = 1" by simp
  have a7: "nodeIsAnd negatedDesign 7" by code_simp
  have iu: "indexFromLiteral 7 \<in> nodeVariables ?u" by code_simp
  from odd_literal_mark[OF n ck ft r1] s1 bc od
  have m1: "implementationMap negatedMarked 7 = Some True
            \<and> implementationMap negatedPushed 7 = None
            \<and> implementationMap negatedMarked (7 - 1) = Some False"
    by (elim conjE allE[where x = 7] allE[where x = "[8]"] allE[where x = negatedMarked]
             allE[where x = ?b]) simp
  then have m7: "implementationMap negatedMarked 7 = Some True" by simp
  from odd_literal_mark[OF n ck ft r2] have
    q2: "\<forall>l. nodeIsAnd negatedDesign l \<and> l mod 2 = 1
              \<and> implementationMap negatedMarked l = Some True \<longrightarrow>
               implementationMap negatedMarked (l - 1) = Some False
               \<and> literalFromIndex (indexFromLiteral l) = l - 1
               \<and> (\<forall>u. indexFromLiteral l \<in> nodeVariables u \<longrightarrow>
                      l - 1 \<in> unimplementedNodes negatedMarked u
                      \<and> (\<forall>a n. estimateUnionCutAreaCost negatedMarked a u = Inr n \<longrightarrow>
                             n = of_nat (card (unimplementedNodes negatedMarked u))))"
    and q3: "\<forall>l t nxt e'.
               l mod 2 = 1 \<and> implementationMap negatedMarked l = Some True
               \<and> findCutsBody insertionSort negatedMarked t = Inr (nxt, e') \<longrightarrow>
               implementationMap e' l = Some True"
    by blast+
  from q2 a7 od m7 iu have c6: "7 - 1 \<in> unimplementedNodes negatedMarked ?u" by blast
  from q3 od m7 s2 have d7: "implementationMap negatedDone 7 = Some True" by blast
  from m1 have "implementationMap negatedMarked 6 = Some False"
    "implementationMap negatedPushed 7 = None" by simp_all
  moreover from c6 have "6 \<in> unimplementedNodes negatedMarked ?u" by simp
  ultimately show ?thesis using n ck ft r1 r2 s1 s2 bc od a7 iu m7 d7 by (intro conjI)
qed

end
